theory Spec2Isabelle
  imports Complex_Main
begin

section \<open>Data model of \<open>app/models/queue.py\<close>\<close>

text \<open>
  A naive Python \<open>datetime\<close> is a point on a linear time axis with microsecond
  resolution.  It is modelled by the number of microseconds since midnight of day 0, an
  unbounded integer; \<open>timedelta(minutes=m)\<close> is \<open>m\<close> times sixty million microseconds
  and \<open>.hour\<close> is the hour of the day.  The calendar limits of the library (years 1 to
  9999) are outside the model.  The clock \<open>datetime.utcnow()\<close> and the random
  identifiers (\<open>uuid\<close>) are arguments of the operations that read them.
\<close>

type_synonym datetime = int

definition timedelta_minutes :: "int \<Rightarrow> int" where
  "timedelta_minutes m = m * 60000000"

definition timedelta_hours :: "int \<Rightarrow> int" where
  "timedelta_hours h = h * 3600000000"

definition microseconds_per_day :: int where
  "microseconds_per_day = 86400000000"

definition hour_of :: "datetime \<Rightarrow> int" where
  "hour_of t = (t div 3600000000) mod 24"

datatype QueueType = WALK_IN | APPOINTMENT | DELIVERY | TAKEAWAY | DINE_IN

datatype QueueStatus = WAITING | CALLED | PREPARING | READY | COMPLETED | CANCELLED | NO_SHOW

datatype AppointmentType =
  COFFEE_MEETING | COFFEE_DATE | BUSINESS_MEETING | STUDY_SESSION | CASUAL_MEETUP
  | THERAPY_SESSION | PICKUP_ORDER

datatype NotificationMethod = SMS | EMAIL | PUSH | IN_STORE_DISPLAY

text \<open>One element of \<open>QueueEntry.notifications_sent\<close> (a dictionary with four fixed keys).\<close>

record Notification =
  ntype :: string
  nmethod :: string
  sent_at :: datetime
  success :: bool

text \<open>
  \<open>QueueEntry\<close>, field by field.  \<open>order_value\<close> is a float that no operation reads
  or computes with; it is only carried along.
\<close>

record QueueEntry =
  queue_id :: string
  session_id :: "string option"
  customer_id :: "string option"
  queue_type :: QueueType
  status :: QueueStatus
  priority :: int
  customer_name :: string
  customer_phone :: "string option"
  customer_email :: "string option"
  party_size :: int
  order_id :: "string option"
  has_order :: bool
  order_value :: real
  estimated_prep_time :: int
  created_at :: datetime
  estimated_ready_time :: "datetime option"
  called_at :: "datetime option"
  completed_at :: "datetime option"
  original_position :: int
  current_position :: int
  special_requests :: "string option"
  accessibility_needs :: "string list"
  dietary_restrictions :: "string list"
  notification_methods :: "NotificationMethod list"
  notifications_sent :: "Notification list"
  table_number :: "int option"
  seating_preference :: "string option"

text \<open>
  The defaults of the class \<open>QueueEntry\<close>: an entry built from the required
  \<open>customer_name\<close> alone, with the generated \<open>queue_id\<close> and the time of creation.
\<close>

definition default_QueueEntry :: "string \<Rightarrow> string \<Rightarrow> datetime \<Rightarrow> QueueEntry" where
  "default_QueueEntry qid name now =
     \<lparr> queue_id = qid, session_id = None, customer_id = None,
       queue_type = WALK_IN, status = WAITING, priority = 0,
       customer_name = name, customer_phone = None, customer_email = None,
       party_size = 1, order_id = None, has_order = False,
       order_value = 0, estimated_prep_time = 5,
       created_at = now, estimated_ready_time = None, called_at = None,
       completed_at = None, original_position = 0, current_position = 0,
       special_requests = None, accessibility_needs = [], dietary_restrictions = [],
       notification_methods = [], notifications_sent = [],
       table_number = None, seating_preference = None \<rparr>"

text \<open>
  \<open>Appointment\<close>.  Its fields \<open>created_at\<close>, \<open>status\<close> and \<open>seating_preference\<close>
  carry the prefix \<open>apt_\<close> here, because \<open>QueueEntry\<close> has fields of the same names.
  The status is a plain string in the source (\<open>"pending"\<close>, \<open>"confirmed"\<close>,
  \<open>"cancelled"\<close>, \<open>"completed"\<close>).
\<close>

record Appointment =
  appointment_id :: string
  queue_entry_id :: "string option"
  appointment_type :: AppointmentType
  scheduled_time :: datetime
  duration_minutes :: int
  organizer_name :: string
  organizer_phone :: "string option"
  organizer_email :: "string option"
  participant_count :: int
  participant_names :: "string list"
  apt_seating_preference :: "string option"
  atmosphere_preference :: "string option"
  special_requirements :: "string option"
  apt_created_at :: datetime
  confirmed_at :: "datetime option"
  apt_status :: string
  reminder_sent_24h :: bool
  reminder_sent_1h :: bool

text \<open>
  A \<open>QueueEntry\<close> is a mutable object: the caller of \<open>add_to_queue\<close> and the queue
  hold the same object, and a write to a field is seen through both.  Objects are
  therefore told apart by a reference, and their fields live in a heap, a function from
  references to the current value of the object.
\<close>

type_synonym ref = nat

type_synonym heap = "ref \<Rightarrow> QueueEntry"

text \<open>
  \<open>QueueManager\<close>.  \<open>current_queues\<close> is a dictionary that the constructor fills with
  one list per queue type, in the order of the enumeration; no operation adds or deletes
  a key, so it is a total function together with the fixed iteration order
  \<open>all_queue_types\<close>.  Each list holds references to entry objects.  An
  \<open>Appointment\<close> is built inside \<open>schedule_appointment\<close> and appended once, so the
  list of appointments holds values.  \<open>daily_stats\<close> is never read or written and is
  left out.
\<close>

record QueueManager =
  current_queues :: "QueueType \<Rightarrow> ref list"
  appointments :: "Appointment list"
  max_queue_size :: int
  average_service_time :: int
  opening_time :: string
  closing_time :: string
  total_tables :: int
  available_tables :: "int list"
  occupied_tables :: "int \<rightharpoonup> string"

definition all_queue_types :: "QueueType list" where
  "all_queue_types = [WALK_IN, APPOINTMENT, DELIVERY, TAKEAWAY, DINE_IN]"

text \<open>
  A manager with tables \<open>1..N\<close>, all available, and every queue empty.  The default
  constructor is \<open>new_QueueManager 20\<close>.
\<close>

definition new_QueueManager :: "int \<Rightarrow> QueueManager" where
  "new_QueueManager N =
     \<lparr> current_queues = (\<lambda>_. []),
       appointments = [],
       max_queue_size = 50,
       average_service_time = 5,
       opening_time = ''06:00'',
       closing_time = ''21:00'',
       total_tables = N,
       available_tables = [1..N],
       occupied_tables = Map.empty \<rparr>"

text \<open>
  The state of the program: the entry objects and the manager.  \<open>next_ref\<close> numbers
  the objects that the service constructs; the manager's own operations construct none.
\<close>

record state =
  heap :: heap
  next_ref :: ref
  manager :: QueueManager

definition initial :: "heap \<Rightarrow> int \<Rightarrow> state" where
  "initial h N = \<lparr> heap = h, next_ref = 0, manager = new_QueueManager N \<rparr>"

text \<open>The queue of a type in a state, and a write to the queues or to an object.\<close>

definition queue_of :: "state \<Rightarrow> QueueType \<Rightarrow> ref list" where
  "queue_of s qt = current_queues (manager s) qt"

definition set_queue :: "QueueType \<Rightarrow> ref list \<Rightarrow> state \<Rightarrow> state" where
  "set_queue qt queue s =
     s\<lparr>manager := (manager s)\<lparr>current_queues := (current_queues (manager s))(qt := queue)\<rparr>\<rparr>"

definition write_entry :: "ref \<Rightarrow> (QueueEntry \<Rightarrow> QueueEntry) \<Rightarrow> state \<Rightarrow> state" where
  "write_entry r f s = s\<lparr>heap := (heap s)(r := f (heap s r))\<rparr>"

section \<open>Operations of \<open>QueueManager\<close>\<close>

text \<open>
  \<open>_update_positions\<close>: the loop writes the index plus one into the object of every
  slot, front to back.  An object that stands in two slots is written twice and keeps
  the later value.
\<close>

fun write_positions :: "nat \<Rightarrow> ref list \<Rightarrow> heap \<Rightarrow> heap" where
  "write_positions i [] h = h"
| "write_positions i (r # rest) h =
     write_positions (Suc i) rest (h(r := (h r)\<lparr>current_position := int i + 1\<rparr>))"

definition update_positions :: "QueueType \<Rightarrow> state \<Rightarrow> state" where
  "update_positions qt s = s\<lparr>heap := write_positions 0 (queue_of s qt) (heap s)\<rparr>"

text \<open>
  The scan of \<open>add_to_queue\<close>: the index of the first existing entry whose priority the
  new priority exceeds, if there is one (the loop breaks there).
\<close>

fun find_position :: "heap \<Rightarrow> int \<Rightarrow> nat \<Rightarrow> ref list \<Rightarrow> nat option" where
  "find_position h p i [] = None"
| "find_position h p i (existing_entry # rest) =
     (if p > priority (h existing_entry) then Some i else find_position h p (Suc i) rest)"

text \<open>\<open>list.insert(position, x)\<close> for \<open>0 \<le> position \<le> len\<close>.\<close>

definition list_insert :: "nat \<Rightarrow> 'a \<Rightarrow> 'a list \<Rightarrow> 'a list" where
  "list_insert position x xs = take position xs @ x # drop position xs"

text \<open>
  \<open>add_to_queue\<close>.  The argument is the caller's object: the two position fields are
  written into it, a reference to it is inserted, and the queue is renumbered.
\<close>

definition add_to_queue :: "ref \<Rightarrow> state \<Rightarrow> int \<times> state" where
  "add_to_queue entry s =
     (let qt = queue_type (heap s entry);
          queue = queue_of s qt;
          position = (case find_position (heap s) (priority (heap s entry)) 0 queue of
                        None \<Rightarrow> length queue | Some i \<Rightarrow> i);
          s1 = write_entry entry (\<lambda>e. e\<lparr>original_position := int position + 1,
                                     current_position := int position + 1\<rparr>) s;
          s2 = set_queue qt (list_insert position entry queue) s1
      in (int position + 1, update_positions qt s2))"

text \<open>
  The inner loop of \<open>remove_from_queue\<close>: the first index of a queue whose entry has the
  given id, with the entry.
\<close>

fun find_entry :: "heap \<Rightarrow> string \<Rightarrow> nat \<Rightarrow> ref list \<Rightarrow> (nat \<times> ref) option" where
  "find_entry h qid i [] = None"
| "find_entry h qid i (entry # rest) =
     (if queue_id (h entry) = qid then Some (i, entry) else find_entry h qid (Suc i) rest)"

text \<open>\<open>list.pop(i)\<close> for \<open>0 \<le> i < len\<close>: the list without its element \<open>i\<close>.\<close>

definition list_pop :: "nat \<Rightarrow> 'a list \<Rightarrow> 'a list" where
  "list_pop i xs = take i xs @ drop (Suc i) xs"

text \<open>The outer loop of \<open>remove_from_queue\<close>, over the queues in dictionary order.\<close>

fun remove_scan :: "string \<Rightarrow> QueueType list \<Rightarrow> state \<Rightarrow> ref option \<times> state" where
  "remove_scan qid [] s = (None, s)"
| "remove_scan qid (qt # qts) s =
     (case find_entry (heap s) qid 0 (queue_of s qt) of
        Some (i, removed_entry) \<Rightarrow>
          (Some removed_entry,
           update_positions qt (set_queue qt (list_pop i (queue_of s qt)) s))
      | None \<Rightarrow> remove_scan qid qts s)"

definition remove_from_queue :: "string \<Rightarrow> state \<Rightarrow> ref option \<times> state" where
  "remove_from_queue qid s = remove_scan qid all_queue_types s"

text \<open>\<open>get_queue_position\<close> and \<open>get_estimated_wait_time\<close> search the queues the same way.\<close>

fun find_first :: "string \<Rightarrow> QueueType list \<Rightarrow> state \<Rightarrow> (nat \<times> ref) option" where
  "find_first qid [] s = None"
| "find_first qid (qt # qts) s =
     (case find_entry (heap s) qid 0 (queue_of s qt) of
        Some found \<Rightarrow> Some found
      | None \<Rightarrow> find_first qid qts s)"

definition get_queue_position :: "string \<Rightarrow> state \<Rightarrow> int option" where
  "get_queue_position qid s =
     (case find_first qid all_queue_types s of
        Some (i, entry) \<Rightarrow> Some (int i + 1) | None \<Rightarrow> None)"

definition entry_get_estimated_wait_time :: "QueueEntry \<Rightarrow> int \<Rightarrow> int \<Rightarrow> int" where
  "entry_get_estimated_wait_time entry queue_ahead avg_service_time =
     queue_ahead * avg_service_time + estimated_prep_time entry"

definition get_estimated_wait_time :: "string \<Rightarrow> state \<Rightarrow> int option" where
  "get_estimated_wait_time qid s =
     (case find_first qid all_queue_types s of
        Some (i, entry) \<Rightarrow>
          Some (entry_get_estimated_wait_time (heap s entry) (int i)
                  (average_service_time (manager s)))
      | None \<Rightarrow> None)"

text \<open>
  \<open>call_next_customer\<close>: the front entry is marked in place and returned; the queue
  keeps it.
\<close>

definition call_next_customer :: "datetime \<Rightarrow> QueueType \<Rightarrow> state \<Rightarrow> ref option \<times> state" where
  "call_next_customer now qt s =
     (case queue_of s qt of
        [] \<Rightarrow> (None, s)
      | next_customer # rest \<Rightarrow>
          (Some next_customer,
           write_entry next_customer (\<lambda>e. e\<lparr>status := CALLED, called_at := Some now\<rparr>) s))"

text \<open>
  \<open>complete_service\<close>.  The test \<open>if table_number and table_number in
  self.occupied_tables\<close> is false for \<open>None\<close> and for \<open>0\<close>.
\<close>

definition release_table :: "int option \<Rightarrow> QueueManager \<Rightarrow> QueueManager" where
  "release_table table qm =
     (case table of
        None \<Rightarrow> qm
      | Some t \<Rightarrow>
          if t \<noteq> 0 \<and> occupied_tables qm t \<noteq> None
          then qm\<lparr>available_tables := available_tables qm @ [t],
                  occupied_tables := (occupied_tables qm)(t := None)\<rparr>
          else qm)"

definition complete_service :: "datetime \<Rightarrow> string \<Rightarrow> int option \<Rightarrow> state \<Rightarrow> ref option \<times> state" where
  "complete_service now qid table s =
     (case remove_from_queue qid s of
        (None, s1) \<Rightarrow> (None, s1)
      | (Some entry, s1) \<Rightarrow>
          (let s2 = write_entry entry (\<lambda>e. e\<lparr>status := COMPLETED, completed_at := Some now\<rparr>) s1
           in (Some entry, s2\<lparr>manager := release_table table (manager s2)\<rparr>)))"

text \<open>
  \<open>assign_table\<close>.  The inner loop stops at the first entry of a queue with the given
  id and writes the table into it; the outer loop goes on through every queue.  The
  \<open>preference\<close> argument is not read.
\<close>

fun set_table :: "string \<Rightarrow> int \<Rightarrow> ref list \<Rightarrow> heap \<Rightarrow> heap" where
  "set_table qid t [] h = h"
| "set_table qid t (entry # rest) h =
     (if queue_id (h entry) = qid then h(entry := (h entry)\<lparr>table_number := Some t\<rparr>)
      else set_table qid t rest h)"

fun set_table_all :: "string \<Rightarrow> int \<Rightarrow> ref list list \<Rightarrow> heap \<Rightarrow> heap" where
  "set_table_all qid t [] h = h"
| "set_table_all qid t (queue # queues) h = set_table_all qid t queues (set_table qid t queue h)"

definition assign_table :: "string \<Rightarrow> string option \<Rightarrow> state \<Rightarrow> int option \<times> state" where
  "assign_table qid preference s =
     (case available_tables (manager s) of
        [] \<Rightarrow> (None, s)
      | t # ts \<Rightarrow>
          (Some t,
           s\<lparr>manager := (manager s)\<lparr>available_tables := ts,
                                     occupied_tables := (occupied_tables (manager s))(t \<mapsto> qid)\<rparr>,
             heap := set_table_all qid t (map (queue_of s) all_queue_types) (heap s)\<rparr>))"

section \<open>Operations of \<open>VirtualQueueService\<close> (\<open>app/services/queue_service.py\<close>)\<close>

text \<open>
  The service owns one \<open>QueueManager\<close>, created by the default constructor.  The table
  of QR sessions is separate from the manager and is not modelled.  Sending a message
  only formats and prints it; what stays is the record that \<open>add_notification\<close> appends
  to the entry.  Within one call of an operation every reading of the clock is the
  argument \<open>now\<close>.  The exceptions an operation can raise are values of \<open>error\<close>:
  \<open>SlotUnavailable\<close> is the \<open>ValueError("Time slot not available")\<close> of
  \<open>schedule_appointment\<close>, and \<open>ValidationError\<close> is what the constructors of
  \<open>QueueEntry\<close> and \<open>Appointment\<close> raise when an argument is outside the bounds
  declared on the field.
\<close>

datatype error = SlotUnavailable | ValidationError

definition new_VirtualQueueService :: "heap \<Rightarrow> state" where
  "new_VirtualQueueService h = initial h 20"

text \<open>Python's truth value of an optional string: false for \<open>None\<close> and for \<open>""\<close>.\<close>

definition truthy :: "string option \<Rightarrow> bool" where
  "truthy x = (case x of None \<Rightarrow> False | Some v \<Rightarrow> v \<noteq> [])"

definition add_notification :: "datetime \<Rightarrow> string \<Rightarrow> string \<Rightarrow> bool \<Rightarrow> QueueEntry \<Rightarrow> QueueEntry" where
  "add_notification now notification_type method ok entry =
     entry\<lparr>notifications_sent := notifications_sent entry
        @ [\<lparr>ntype = notification_type, nmethod = method, sent_at = now, success = ok\<rparr>]\<rparr>"

definition send_notification :: "datetime \<Rightarrow> string \<Rightarrow> QueueEntry \<Rightarrow> QueueEntry" where
  "send_notification now template_name entry = add_notification now template_name ''multi'' True entry"

definition is_ready_for_notification :: "datetime \<Rightarrow> string \<Rightarrow> int \<Rightarrow> QueueEntry \<Rightarrow> bool" where
  "is_ready_for_notification now notification_type cooldown_minutes entry =
     (filter (\<lambda>n. ntype n = notification_type \<and> sent_at n > now - timedelta_minutes cooldown_minutes)
        (notifications_sent entry) = [])"

definition calculate_prep_time :: "string \<Rightarrow> int" where
  "calculate_prep_time order = 5"

text \<open>
  \<open>join_queue\<close>.  The constructor of \<open>QueueEntry\<close> checks \<open>1 \<le> party_size \<le> 12\<close>;
  the fields the call does not pass take the defaults of the class.  \<open>qid\<close> is the
  generated identifier.  The new object is the next one of the heap; it is passed to
  \<open>add_to_queue\<close>, then the estimated ready time and the notification are written to
  it, and it is returned.
\<close>

definition join_queue ::
  "string \<Rightarrow> datetime \<Rightarrow> string \<Rightarrow> QueueType \<Rightarrow> int \<Rightarrow> string option \<Rightarrow> string option
     \<Rightarrow> string option \<Rightarrow> string option \<Rightarrow> string option \<Rightarrow> state
     \<Rightarrow> error + (ref \<times> state)" where
  "join_queue qid now name qt party phone email requests session order s =
     (if party < 1 \<or> 12 < party then Inl ValidationError
      else
        let entry = next_ref s;
            entry0 = (default_QueueEntry qid name now)
              \<lparr> session_id := session, queue_type := qt, customer_phone := phone,
                customer_email := email, party_size := party, special_requests := requests,
                order_id := order, has_order := truthy order,
                notification_methods :=
                  (if truthy phone then [SMS] else []) @ (if truthy email then [EMAIL] else [])
                    @ [IN_STORE_DISPLAY] \<rparr>;
            entry1 = (case order of
                        None \<Rightarrow> entry0
                      | Some oid \<Rightarrow>
                          if oid \<noteq> [] then entry0\<lparr>estimated_prep_time := calculate_prep_time oid\<rparr>
                          else entry0);
            s0 = s\<lparr>heap := (heap s)(entry := entry1), next_ref := Suc (next_ref s)\<rparr>;
            (position, s1) = add_to_queue entry s0;
            wait_time = entry_get_estimated_wait_time (heap s1 entry) (position - 1)
                          (average_service_time (manager s1));
            s2 = write_entry entry (\<lambda>e. e\<lparr>estimated_ready_time := Some (now + timedelta_minutes wait_time)\<rparr>) s1;
            s3 = write_entry entry (send_notification now ''queue_joined'') s2
        in Inr (entry, s3))"

text \<open>
  \<open>call_next_customer\<close> of the service: the manager's call, a table for a dine-in
  customer, and the notification, recorded on the called entry.
\<close>

definition svc_call_next_customer :: "datetime \<Rightarrow> QueueType \<Rightarrow> state \<Rightarrow> ref option \<times> state" where
  "svc_call_next_customer now qt s =
     (case call_next_customer now qt s of
        (None, s1) \<Rightarrow> (None, s1)
      | (Some entry, s1) \<Rightarrow>
          (let s2 = (if qt = DINE_IN
                     then snd (assign_table (queue_id (heap s1 entry))
                                 (seating_preference (heap s1 entry)) s1)
                     else s1);
               s3 = write_entry entry (send_notification now ''your_turn'') s2
           in (Some entry, s3)))"

text \<open>\<open>complete_service\<close> of the service calls the manager's without a table number.\<close>

definition svc_complete_service :: "datetime \<Rightarrow> string \<Rightarrow> state \<Rightarrow> ref option \<times> state" where
  "svc_complete_service now qid s = complete_service now qid None s"

definition cancel_queue_entry :: "string \<Rightarrow> string \<Rightarrow> state \<Rightarrow> bool \<times> state" where
  "cancel_queue_entry qid reason s =
     (case remove_from_queue qid s of
        (None, s1) \<Rightarrow> (False, s1)
      | (Some entry, s1) \<Rightarrow> (True, write_entry entry (\<lambda>e. e\<lparr>status := CANCELLED\<rparr>) s1))"

text \<open>
  \<open>update_queue_progress\<close>: what it does to the entry at index \<open>i\<close> of a queue, then a
  queue front to back, then every queue.
\<close>

definition progress_entry :: "datetime \<Rightarrow> int \<Rightarrow> nat \<Rightarrow> QueueEntry \<Rightarrow> QueueEntry" where
  "progress_entry now avg i entry =
     (if status entry \<noteq> WAITING then entry
      else if current_position entry - (int i + 1) \<ge> 2 then
        (let entry' = entry\<lparr>current_position := int i + 1\<rparr>
         in if is_ready_for_notification now ''progress'' 5 entry'
            then send_notification now ''queue_progress'' entry' else entry')
      else if int i + 1 \<le> 2 \<and> is_ready_for_notification now ''ready_soon'' 10 entry
        then send_notification now ''ready_soon'' entry
      else entry)"

fun progress_queue :: "datetime \<Rightarrow> int \<Rightarrow> nat \<Rightarrow> ref list \<Rightarrow> heap \<Rightarrow> heap" where
  "progress_queue now avg i [] h = h"
| "progress_queue now avg i (entry # rest) h =
     progress_queue now avg (Suc i) rest (h(entry := progress_entry now avg i (h entry)))"

fun progress_queues :: "datetime \<Rightarrow> int \<Rightarrow> ref list list \<Rightarrow> heap \<Rightarrow> heap" where
  "progress_queues now avg [] h = h"
| "progress_queues now avg (queue # queues) h =
     progress_queues now avg queues (progress_queue now avg 0 queue h)"

definition update_queue_progress :: "datetime \<Rightarrow> state \<Rightarrow> state" where
  "update_queue_progress now s =
     s\<lparr>heap := progress_queues now (average_service_time (manager s))
                 (map (queue_of s) all_queue_types) (heap s)\<rparr>"

subsection \<open>Appointments\<close>

text \<open>
  The loop of \<open>_is_time_slot_available\<close> over the existing appointments: true when it
  returns \<open>False\<close> at an appointment, that is, at the first one that is not cancelled
  and overlaps.
\<close>

fun conflict :: "datetime \<Rightarrow> datetime \<Rightarrow> Appointment list \<Rightarrow> bool" where
  "conflict start_time end_time [] = False"
| "conflict start_time end_time (appointment # rest) =
     (if apt_status appointment = ''cancelled'' then conflict start_time end_time rest
      else
        let apt_start = scheduled_time appointment;
            apt_end = apt_start + timedelta_minutes (duration_minutes appointment)
        in if start_time < apt_end \<and> end_time > apt_start then True
           else conflict start_time end_time rest)"

definition is_time_slot_available :: "datetime \<Rightarrow> int \<Rightarrow> QueueManager \<Rightarrow> bool" where
  "is_time_slot_available start_time duration qm =
     (let end_time = start_time + timedelta_minutes duration
      in if conflict start_time end_time (appointments qm) then False
         else if hour_of start_time < 8 \<or> hour_of start_time \<ge> 20 then False
         else True)"

text \<open>
  \<open>schedule_appointment\<close>.  The slot is checked first; then the constructor of
  \<open>Appointment\<close> checks \<open>15 \<le> duration_minutes \<le> 240\<close> and
  \<open>1 \<le> participant_count \<le> 8\<close>; then the appointment is appended.  \<open>aid\<close> is the
  generated identifier.
\<close>

definition schedule_appointment ::
  "string \<Rightarrow> datetime \<Rightarrow> string \<Rightarrow> AppointmentType \<Rightarrow> datetime \<Rightarrow> int \<Rightarrow> int
     \<Rightarrow> string option \<Rightarrow> string option \<Rightarrow> string option \<Rightarrow> QueueManager
     \<Rightarrow> error + (Appointment \<times> QueueManager)" where
  "schedule_appointment aid now organizer atype time duration participants phone email requirements qm =
     (if \<not> is_time_slot_available time duration qm then Inl SlotUnavailable
      else if duration < 15 \<or> 240 < duration \<or> participants < 1 \<or> 8 < participants
        then Inl ValidationError
      else
        let appointment =
              \<lparr> appointment_id = aid, queue_entry_id = None, appointment_type = atype,
                scheduled_time = time, duration_minutes = duration,
                organizer_name = organizer, organizer_phone = phone, organizer_email = email,
                participant_count = participants, participant_names = [],
                apt_seating_preference = None, atmosphere_preference = None,
                special_requirements = requirements, apt_created_at = now,
                confirmed_at = None, apt_status = ''confirmed'',
                reminder_sent_24h = False, reminder_sent_1h = False \<rparr>
        in Inr (appointment, qm\<lparr>appointments := appointments qm @ [appointment]\<rparr>))"

text \<open>
  \<open>get_available_slots\<close>.  \<open>date.replace(hour=h, minute=0, second=0, microsecond=0)\<close>
  is the start of the date's day plus \<open>h\<close> hours.  The loop runs while the candidate
  plus the duration is at most 20:00 and steps by a quarter of an hour.
\<close>

definition replace_hour :: "datetime \<Rightarrow> int \<Rightarrow> datetime" where
  "replace_hour date h = (date div microseconds_per_day) * microseconds_per_day + timedelta_hours h"

function slots_loop :: "datetime \<Rightarrow> datetime \<Rightarrow> int \<Rightarrow> QueueManager \<Rightarrow> datetime list \<Rightarrow> datetime list" where
  "slots_loop current_time end_time duration qm slots =
     (if current_time + timedelta_minutes duration \<le> end_time
      then slots_loop (current_time + timedelta_minutes 15) end_time duration qm
             (if is_time_slot_available current_time duration qm then slots @ [current_time] else slots)
      else slots)"
  by pat_completeness auto
termination
  by (relation "measure (\<lambda>(c, e, d, qm, s). nat (e - (c + timedelta_minutes d) + 1))")
     (auto simp: timedelta_minutes_def)

definition get_available_slots :: "datetime \<Rightarrow> AppointmentType \<Rightarrow> int \<Rightarrow> QueueManager \<Rightarrow> datetime list" where
  "get_available_slots date atype duration qm =
     slots_loop (replace_hour date 8) (replace_hour date 20) duration qm []"

text \<open>\<open>process_appointment_reminders\<close>.\<close>

definition should_send_reminder :: "datetime \<Rightarrow> int \<Rightarrow> Appointment \<Rightarrow> bool" where
  "should_send_reminder now hours_before appointment =
     (\<bar>(scheduled_time appointment - now) - timedelta_hours hours_before\<bar> < timedelta_minutes 15)"

definition remind :: "datetime \<Rightarrow> Appointment \<Rightarrow> Appointment" where
  "remind now appointment =
     (if apt_status appointment \<noteq> ''confirmed'' then appointment
      else
        let a1 = (if \<not> reminder_sent_24h appointment \<and> should_send_reminder now 24 appointment
                  then appointment\<lparr>reminder_sent_24h := True\<rparr> else appointment)
        in if \<not> reminder_sent_1h a1 \<and> should_send_reminder now 1 a1
           then a1\<lparr>reminder_sent_1h := True\<rparr> else a1)"

definition process_appointment_reminders :: "datetime \<Rightarrow> QueueManager \<Rightarrow> QueueManager" where
  "process_appointment_reminders now qm = qm\<lparr>appointments := map (remind now) (appointments qm)\<rparr>"

subsection \<open>Sequences of service operations\<close>

text \<open>
  The mutating operations of the service as data.  An operation that raises leaves the
  state as it was: both exceptions are raised before anything is changed.
\<close>

datatype service_op =
    Join string datetime string QueueType int "string option" "string option"
      "string option" "string option" "string option"
  | CallNext datetime QueueType
  | CompleteService datetime string
  | Cancel string string
  | Progress datetime
  | Schedule string datetime string AppointmentType datetime int int
      "string option" "string option" "string option"
  | Reminders datetime

fun svc_apply :: "service_op \<Rightarrow> state \<Rightarrow> state" where
  "svc_apply (Join qid now name qt party phone email requests session order) s =
     (case join_queue qid now name qt party phone email requests session order s of
        Inl e \<Rightarrow> s | Inr (entry, s') \<Rightarrow> s')"
| "svc_apply (CallNext now qt) s = snd (svc_call_next_customer now qt s)"
| "svc_apply (CompleteService now qid) s = snd (svc_complete_service now qid s)"
| "svc_apply (Cancel qid reason) s = snd (cancel_queue_entry qid reason s)"
| "svc_apply (Progress now) s = update_queue_progress now s"
| "svc_apply (Schedule aid now organizer atype time duration participants phone email requirements) s =
     (case schedule_appointment aid now organizer atype time duration participants phone email
             requirements (manager s) of
        Inl e \<Rightarrow> s | Inr (appointment, qm') \<Rightarrow> s\<lparr>manager := qm'\<rparr>)"
| "svc_apply (Reminders now) s = s\<lparr>manager := process_appointment_reminders now (manager s)\<rparr>"

fun svc_run :: "service_op list \<Rightarrow> state \<Rightarrow> state" where
  "svc_run [] s = s"
| "svc_run (op # ops) s = svc_run ops (svc_apply op s)"

section \<open>Sequences of manager operations\<close>

text \<open>
  The mutating operations of \<open>QueueManager\<close> as data, so that a run is a list of calls
  applied to a state from left to right.  \<open>Add\<close> carries the object that the caller
  passes.  The results returned to the caller are not needed here and are dropped.
\<close>

datatype manager_op =
    Add ref
  | Remove string
  | Call datetime QueueType
  | Complete datetime string "int option"
  | Assign string "string option"

fun apply_op :: "manager_op \<Rightarrow> state \<Rightarrow> state" where
  "apply_op (Add entry) s = snd (add_to_queue entry s)"
| "apply_op (Remove qid) s = snd (remove_from_queue qid s)"
| "apply_op (Call now qt) s = snd (call_next_customer now qt s)"
| "apply_op (Complete now qid table) s = snd (complete_service now qid table s)"
| "apply_op (Assign qid preference) s = snd (assign_table qid preference s)"

fun run :: "manager_op list \<Rightarrow> state \<Rightarrow> state" where
  "run [] s = s"
| "run (op # ops) s = run ops (apply_op op s)"

text \<open>Insertions only: the objects join in the order of the list.\<close>

fun add_all :: "ref list \<Rightarrow> state \<Rightarrow> state" where
  "add_all [] s = s"
| "add_all (entry # entries) s = add_all entries (snd (add_to_queue entry s))"

section \<open>Properties of queues and of the table pool\<close>

text \<open>A queue is ordered by priority when no entry has a lower priority than a later one.\<close>

definition by_priority :: "heap \<Rightarrow> ref list \<Rightarrow> bool" where
  "by_priority h queue = sorted_wrt (\<lambda>a b. priority (h b) \<le> priority (h a)) queue"

text \<open>The \<open>current_position\<close> of the entry in every slot is the index of the slot plus one.\<close>

definition positions_ok :: "heap \<Rightarrow> ref list \<Rightarrow> bool" where
  "positions_ok h queue =
     (map (\<lambda>r. current_position (h r)) queue = map (\<lambda>i. int i + 1) [0..<length queue])"

text \<open>
  All slots of all queues, and the states in which no object stands in two slots, of
  the same queue or of two queues.
\<close>

definition queued :: "state \<Rightarrow> ref list" where
  "queued s = concat (map (queue_of s) all_queue_types)"

definition no_shared :: "state \<Rightarrow> bool" where
  "no_shared s = distinct (queued s)"

text \<open>Every queue of a state has its positions in order.\<close>

definition all_positions_ok :: "state \<Rightarrow> bool" where
  "all_positions_ok s = list_all (\<lambda>qt. positions_ok (heap s) (queue_of s qt)) all_queue_types"

text \<open>
  A run in which every \<open>add_to_queue\<close> is given an object that is in no queue at the
  time of the call, as \<open>join_queue\<close>, the only caller in the repository, does.
\<close>

fun adds_unqueued :: "manager_op list \<Rightarrow> state \<Rightarrow> bool" where
  "adds_unqueued [] s = True"
| "adds_unqueued (op # ops) s =
     ((case op of Add entry \<Rightarrow> entry \<notin> set (queued s) | _ \<Rightarrow> True)
      \<and> adds_unqueued ops (apply_op op s))"

text \<open>
  The table invariant: the pool and the keys of the occupied map are disjoint and cover
  \<open>1..N\<close>.  The pool is a list; that no table is in it twice is part of what the
  operations maintain.
\<close>

definition tables_ok :: "int \<Rightarrow> QueueManager \<Rightarrow> bool" where
  "tables_ok N qm =
     (distinct (available_tables qm)
      \<and> set (available_tables qm) \<inter> dom (occupied_tables qm) = {}
      \<and> set (available_tables qm) \<union> dom (occupied_tables qm) = {1..N})"

text \<open>
  The operations that neither complete nor remove an entry and do not insert an entry
  ahead of a front entry of priority \<open>p\<close> in the queue \<open>qt\<close>.  The heap is the one
  the run starts from: no operation writes the priority or the queue type of an object.
\<close>

fun keeps_front :: "heap \<Rightarrow> QueueType \<Rightarrow> int \<Rightarrow> manager_op \<Rightarrow> bool" where
  "keeps_front h qt p (Add entry) = (queue_type (h entry) \<noteq> qt \<or> priority (h entry) \<le> p)"
| "keeps_front h qt p (Remove qid) = False"
| "keeps_front h qt p (Call now qt') = True"
| "keeps_front h qt p (Complete now qid table) = False"
| "keeps_front h qt p (Assign qid preference) = True"

text \<open>
  Objects for examples: entries as the constructor builds them, with a queue type and a
  priority, and a heap that holds four of them.
\<close>

definition sample_entry :: "string \<Rightarrow> QueueType \<Rightarrow> int \<Rightarrow> QueueEntry" where
  "sample_entry qid qt p = (default_QueueEntry qid ''customer'' 0)\<lparr>queue_type := qt, priority := p\<rparr>"

definition sample_heap :: heap where
  "sample_heap =
     (\<lambda>r. sample_entry ''other'' WALK_IN 0)
       (0 := sample_entry ''first'' WALK_IN 0,
        1 := sample_entry ''second'' WALK_IN 0,
        2 := sample_entry ''third'' WALK_IN 5,
        3 := sample_entry ''a'' DINE_IN 0)"

section \<open>Reading a state after a write\<close>

lemma all_queue_types_complete: "set all_queue_types = UNIV"
proof -
  have "qt \<in> set all_queue_types" for qt
    by (cases qt) (simp_all add: all_queue_types_def)
  then show ?thesis by auto
qed

lemma set_queue_simps [simp]:
  "queue_of (set_queue qt q s) qt' = (if qt' = qt then q else queue_of s qt')"
  "heap (set_queue qt q s) = heap s"
  "next_ref (set_queue qt q s) = next_ref s"
  "appointments (manager (set_queue qt q s)) = appointments (manager s)"
  "available_tables (manager (set_queue qt q s)) = available_tables (manager s)"
  "occupied_tables (manager (set_queue qt q s)) = occupied_tables (manager s)"
  "average_service_time (manager (set_queue qt q s)) = average_service_time (manager s)"
  by (simp_all add: set_queue_def queue_of_def)

lemma write_entry_simps [simp]:
  "queue_of (write_entry r f s) = queue_of s"
  "heap (write_entry r f s) = (heap s)(r := f (heap s r))"
  "manager (write_entry r f s) = manager s"
  "next_ref (write_entry r f s) = next_ref s"
  by (simp_all add: write_entry_def queue_of_def fun_eq_iff)

lemma update_positions_simps [simp]:
  "queue_of (update_positions qt s) = queue_of s"
  "heap (update_positions qt s) = write_positions 0 (queue_of s qt) (heap s)"
  "manager (update_positions qt s) = manager s"
  "next_ref (update_positions qt s) = next_ref s"
  by (simp_all add: update_positions_def queue_of_def fun_eq_iff)

lemma initial_simps [simp]:
  "queue_of (initial h N) qt = []"
  "heap (initial h N) = h"
  "manager (initial h N) = new_QueueManager N"
  "next_ref (initial h N) = 0"
  by (simp_all add: initial_def queue_of_def new_QueueManager_def)

lemma set_queued: "set (queued s) = (\<Union>qt. set (queue_of s qt))"
proof -
  have "set (queued s) = (\<Union>qt \<in> set all_queue_types. set (queue_of s qt))"
    by (simp add: queued_def)
  then show ?thesis by (simp add: all_queue_types_complete)
qed

subsection \<open>\<open>write_positions\<close>\<close>

lemma write_positions_other: "r \<notin> set rs \<Longrightarrow> write_positions i rs h r = h r"
  by (induction rs arbitrary: i h) simp_all

lemma write_positions_append:
  "write_positions i (xs @ ys) h = write_positions (i + length xs) ys (write_positions i xs h)"
  by (induction xs arbitrary: i h) simp_all

lemma write_positions_same:
  "(write_positions i rs h r)\<lparr>current_position := c\<rparr> = (h r)\<lparr>current_position := c\<rparr>"
proof (induction rs arbitrary: i h)
  case Nil
  show ?case by simp
next
  case (Cons a rs)
  show ?case unfolding write_positions.simps Cons.IH by simp
qed

lemma write_positions_fields [simp]:
  "priority (write_positions i rs h r) = priority (h r)"
  "queue_type (write_positions i rs h r) = queue_type (h r)"
  "queue_id (write_positions i rs h r) = queue_id (h r)"
  "original_position (write_positions i rs h r) = original_position (h r)"
  "status (write_positions i rs h r) = status (h r)"
  "called_at (write_positions i rs h r) = called_at (h r)"
  "table_number (write_positions i rs h r) = table_number (h r)"
proof -
  have e: "(write_positions i rs h r)\<lparr>current_position := 0\<rparr> = (h r)\<lparr>current_position := 0\<rparr>"
    by (rule write_positions_same)
  have "priority ((write_positions i rs h r)\<lparr>current_position := 0\<rparr>) = priority ((h r)\<lparr>current_position := 0\<rparr>)"
    by (simp only: e)
  then show "priority (write_positions i rs h r) = priority (h r)" by simp
  have "queue_type ((write_positions i rs h r)\<lparr>current_position := 0\<rparr>) = queue_type ((h r)\<lparr>current_position := 0\<rparr>)"
    by (simp only: e)
  then show "queue_type (write_positions i rs h r) = queue_type (h r)" by simp
  have "queue_id ((write_positions i rs h r)\<lparr>current_position := 0\<rparr>) = queue_id ((h r)\<lparr>current_position := 0\<rparr>)"
    by (simp only: e)
  then show "queue_id (write_positions i rs h r) = queue_id (h r)" by simp
  have "original_position ((write_positions i rs h r)\<lparr>current_position := 0\<rparr>)
      = original_position ((h r)\<lparr>current_position := 0\<rparr>)"
    by (simp only: e)
  then show "original_position (write_positions i rs h r) = original_position (h r)" by simp
  have "status ((write_positions i rs h r)\<lparr>current_position := 0\<rparr>) = status ((h r)\<lparr>current_position := 0\<rparr>)"
    by (simp only: e)
  then show "status (write_positions i rs h r) = status (h r)" by simp
  have "called_at ((write_positions i rs h r)\<lparr>current_position := 0\<rparr>) = called_at ((h r)\<lparr>current_position := 0\<rparr>)"
    by (simp only: e)
  then show "called_at (write_positions i rs h r) = called_at (h r)" by simp
  have "table_number ((write_positions i rs h r)\<lparr>current_position := 0\<rparr>)
      = table_number ((h r)\<lparr>current_position := 0\<rparr>)"
    by (simp only: e)
  then show "table_number (write_positions i rs h r) = table_number (h r)" by simp
qed

lemma write_positions_last:
  "r \<notin> set ys \<Longrightarrow>
   current_position (write_positions i (xs @ r # ys) h r) = int (i + length xs) + 1"
  by (simp add: write_positions_append write_positions_other)

lemma write_positions_nth:
  "distinct rs \<Longrightarrow> k < length rs \<Longrightarrow>
   current_position (write_positions i rs h (rs ! k)) = int (i + k) + 1"
proof -
  assume d: "distinct rs" and k: "k < length rs"
  have split: "rs = take k rs @ rs ! k # drop (Suc k) rs"
    using k by (simp add: id_take_nth_drop)
  have notin: "rs ! k \<notin> set (drop (Suc k) rs)"
  proof
    assume "rs ! k \<in> set (drop (Suc k) rs)"
    then have "\<not> distinct (rs ! k # drop (Suc k) rs)" by simp
    moreover have "distinct (drop k rs)" using d by simp
    ultimately show False using k by (simp add: Cons_nth_drop_Suc)
  qed
  have "current_position (write_positions i (take k rs @ rs ! k # drop (Suc k) rs) h (rs ! k))
      = int (i + length (take k rs)) + 1"
    using notin by (rule write_positions_last)
  then show ?thesis using split k by simp
qed

lemma positions_ok_nth:
  "positions_ok h q \<longleftrightarrow> (\<forall>i < length q. current_position (h (q ! i)) = int i + 1)"
proof
  assume a: "positions_ok h q"
  show "\<forall>i < length q. current_position (h (q ! i)) = int i + 1"
  proof (intro allI impI)
    fix i assume i: "i < length q"
    from a have "map (\<lambda>r. current_position (h r)) q ! i = map (\<lambda>i. int i + 1) [0..<length q] ! i"
      by (simp add: positions_ok_def)
    then show "current_position (h (q ! i)) = int i + 1" using i by simp
  qed
next
  assume a: "\<forall>i < length q. current_position (h (q ! i)) = int i + 1"
  show "positions_ok h q"
    unfolding positions_ok_def by (rule nth_equalityI) (simp_all add: a)
qed

lemma positions_ok_write_positions:
  "distinct q \<Longrightarrow> positions_ok (write_positions 0 q h) q"
  by (simp add: positions_ok_nth write_positions_nth)

lemma positions_ok_cong:
  "(\<And>r. r \<in> set q \<Longrightarrow> current_position (h' r) = current_position (h r))
     \<Longrightarrow> positions_ok h' q = positions_ok h q"
  by (simp add: positions_ok_nth)

lemma by_priority_cong:
  "(\<And>r. priority (h' r) = priority (h r)) \<Longrightarrow> by_priority h' q = by_priority h q"
  by (simp add: by_priority_def)

section \<open>Insertion by priority\<close>

lemma find_position_takeWhile:
  "(case find_position h p i q of None \<Rightarrow> i + length q | Some j \<Rightarrow> j)
     = i + length (takeWhile (\<lambda>x. p \<le> priority (h x)) q)"
proof (induction q arbitrary: i)
  case Nil
  then show ?case by simp
next
  case (Cons a q)
  show ?case using Cons.IH [of "Suc i"] by (simp add: not_less split: option.splits)
qed

lemma insert_position:
  "(case find_position h p 0 q of None \<Rightarrow> length q | Some j \<Rightarrow> j)
     = length (takeWhile (\<lambda>x. p \<le> priority (h x)) q)"
  using find_position_takeWhile [where p = p and i = 0 and q = q and h = h]
  by (simp split: option.splits)

lemma list_insert_takeWhile:
  "list_insert (length (takeWhile P xs)) x xs = takeWhile P xs @ x # dropWhile P xs"
  by (simp add: list_insert_def takeWhile_eq_take [symmetric] dropWhile_eq_drop [symmetric])

lemma add_to_queue_fst:
  "fst (add_to_queue e s) =
     int (length (takeWhile (\<lambda>x. priority (heap s e) \<le> priority (heap s x))
                    (queue_of s (queue_type (heap s e))))) + 1"
  by (simp add: add_to_queue_def Let_def insert_position)

lemma add_to_queue_queue:
  "queue_of (snd (add_to_queue e s)) qt =
     (if qt = queue_type (heap s e)
      then takeWhile (\<lambda>x. priority (heap s e) \<le> priority (heap s x)) (queue_of s qt)
             @ e # dropWhile (\<lambda>x. priority (heap s e) \<le> priority (heap s x)) (queue_of s qt)
      else queue_of s qt)"
  by (simp add: add_to_queue_def Let_def insert_position list_insert_takeWhile)

lemma add_to_queue_heap:
  "heap (snd (add_to_queue e s)) =
     write_positions 0 (queue_of (snd (add_to_queue e s)) (queue_type (heap s e)))
       ((heap s)(e := (heap s e)\<lparr>original_position := fst (add_to_queue e s),
                                  current_position := fst (add_to_queue e s)\<rparr>))"
  by (simp add: add_to_queue_def Let_def insert_position list_insert_takeWhile)

lemma add_to_queue_manager [simp]:
  "available_tables (manager (snd (add_to_queue e s))) = available_tables (manager s)"
  "occupied_tables (manager (snd (add_to_queue e s))) = occupied_tables (manager s)"
  "appointments (manager (snd (add_to_queue e s))) = appointments (manager s)"
  "average_service_time (manager (snd (add_to_queue e s))) = average_service_time (manager s)"
  "next_ref (snd (add_to_queue e s)) = next_ref s"
  by (simp_all add: add_to_queue_def Let_def)

lemma add_to_queue_fields [simp]:
  "priority (heap (snd (add_to_queue e s)) r) = priority (heap s r)"
  "queue_type (heap (snd (add_to_queue e s)) r) = queue_type (heap s r)"
  "queue_id (heap (snd (add_to_queue e s)) r) = queue_id (heap s r)"
  by (simp_all add: add_to_queue_heap)

subsection \<open>Order and stability\<close>

lemma dropWhile_lower:
  "by_priority h q \<Longrightarrow> x \<in> set (dropWhile (\<lambda>x. p \<le> priority (h x)) q) \<Longrightarrow> priority (h x) < p"
  by (induction q) (auto simp: by_priority_def split: if_splits)

lemma by_priority_insert:
  assumes "by_priority h q"
  shows "by_priority h (takeWhile (\<lambda>x. priority (h e) \<le> priority (h x)) q
                          @ e # dropWhile (\<lambda>x. priority (h e) \<le> priority (h x)) q)"
proof -
  let ?P = "\<lambda>x. priority (h e) \<le> priority (h x)"
  have hi: "\<forall>x \<in> set (takeWhile ?P q). priority (h e) \<le> priority (h x)"
    by (auto dest: set_takeWhileD)
  have lo: "\<forall>x \<in> set (dropWhile ?P q). priority (h x) < priority (h e)"
    using assms dropWhile_lower by blast
  have lo': "\<forall>x \<in> set (dropWhile ?P q). priority (h x) \<le> priority (h e)"
  proof
    fix x assume "x \<in> set (dropWhile ?P q)"
    with lo have "priority (h x) < priority (h e)" by blast
    then show "priority (h x) \<le> priority (h e)" by simp
  qed
  have "by_priority h (takeWhile ?P q @ dropWhile ?P q)" using assms by simp
  then have a: "sorted_wrt (\<lambda>a b. priority (h b) \<le> priority (h a)) (takeWhile ?P q)"
    and b: "sorted_wrt (\<lambda>a b. priority (h b) \<le> priority (h a)) (dropWhile ?P q)"
    and c: "\<forall>x \<in> set (takeWhile ?P q). \<forall>y \<in> set (dropWhile ?P q). priority (h y) \<le> priority (h x)"
    unfolding by_priority_def sorted_wrt_append by blast+
  have d: "sorted_wrt (\<lambda>a b. priority (h b) \<le> priority (h a)) (e # dropWhile ?P q)"
    using b lo' by simp
  have f: "\<forall>x \<in> set (takeWhile ?P q). \<forall>y \<in> set (e # dropWhile ?P q). priority (h y) \<le> priority (h x)"
  proof (intro ballI)
    fix x y assume x: "x \<in> set (takeWhile ?P q)" and "y \<in> set (e # dropWhile ?P q)"
    then have "y = e \<or> y \<in> set (dropWhile ?P q)" by simp
    then show "priority (h y) \<le> priority (h x)" using c hi x by blast
  qed
  show ?thesis
    unfolding by_priority_def sorted_wrt_append using a d f by blast
qed

lemma filter_insert:
  assumes "by_priority h q"
  shows "filter (\<lambda>x. priority (h x) = p)
           (takeWhile (\<lambda>x. priority (h e) \<le> priority (h x)) q
              @ e # dropWhile (\<lambda>x. priority (h e) \<le> priority (h x)) q)
         = filter (\<lambda>x. priority (h x) = p) q @ (if priority (h e) = p then [e] else [])"
proof -
  let ?P = "\<lambda>x. priority (h e) \<le> priority (h x)"
  have lo: "\<forall>x \<in> set (dropWhile ?P q). priority (h x) < priority (h e)"
    using assms dropWhile_lower by blast
  have split: "filter (\<lambda>x. priority (h x) = p) q
      = filter (\<lambda>x. priority (h x) = p) (takeWhile ?P q) @ filter (\<lambda>x. priority (h x) = p) (dropWhile ?P q)"
    by (metis filter_append takeWhile_dropWhile_id)
  show ?thesis
  proof (cases "priority (h e) = p")
    case True
    have "filter (\<lambda>x. priority (h x) = p) (dropWhile ?P q) = []"
      using lo True by (auto simp: filter_empty_conv)
    then show ?thesis using True split by simp
  next
    case False
    then show ?thesis using split by simp
  qed
qed

lemma add_to_queue_by_priority:
  assumes "by_priority (heap s) (queue_of s qt)"
  shows "by_priority (heap (snd (add_to_queue e s))) (queue_of (snd (add_to_queue e s)) qt)"
proof -
  have c: "by_priority (heap (snd (add_to_queue e s))) q = by_priority (heap s) q" for q
    by (rule by_priority_cong) simp
  show ?thesis
  proof (cases "qt = queue_type (heap s e)")
    case True
    then show ?thesis using assms by (simp add: c add_to_queue_queue by_priority_insert)
  next
    case False
    then show ?thesis using assms by (simp add: c add_to_queue_queue)
  qed
qed

lemma add_to_queue_stable:
  assumes "by_priority (heap s) (queue_of s qt)"
  shows "filter (\<lambda>x. priority (heap s x) = p) (queue_of (snd (add_to_queue e s)) qt)
       = filter (\<lambda>x. priority (heap s x) = p) (queue_of s qt)
         @ filter (\<lambda>x. priority (heap s x) = p) (filter (\<lambda>x. queue_type (heap s x) = qt) [e])"
proof (cases "qt = queue_type (heap s e)")
  case True
  have "filter (\<lambda>x. priority (heap s x) = p) (queue_of (snd (add_to_queue e s)) qt)
      = filter (\<lambda>x. priority (heap s x) = p) (queue_of s qt) @ (if priority (heap s e) = p then [e] else [])"
    unfolding add_to_queue_queue using True filter_insert [OF assms] by simp
  then show ?thesis using True by simp
next
  case False
  then show ?thesis by (simp add: add_to_queue_queue)
qed

section \<open>The other operations\<close>

subsection \<open>Removal\<close>

lemma find_entry_Some:
  "find_entry h qid i q = Some (j, e) \<Longrightarrow>
     i \<le> j \<and> j - i < length q \<and> q ! (j - i) = e \<and> queue_id (h e) = qid"
proof (induction q arbitrary: i)
  case Nil
  then show ?case by simp
next
  case (Cons a q)
  show ?case
  proof (cases "queue_id (h a) = qid")
    case True
    with Cons.prems show ?thesis by simp
  next
    case False
    with Cons.prems have r: "find_entry h qid (Suc i) q = Some (j, e)" by simp
    from Cons.IH [OF r] have ih: "Suc i \<le> j" "j - Suc i < length q" "q ! (j - Suc i) = e"
      "queue_id (h e) = qid" by simp_all
    have d: "j - i = Suc (j - Suc i)" using ih(1) by simp
    show ?thesis unfolding d using ih by simp
  qed
qed

lemma find_entry_None:
  "find_entry h qid i q = None \<longleftrightarrow> (\<forall>e \<in> set q. queue_id (h e) \<noteq> qid)"
  by (induction q arbitrary: i) simp_all

lemma find_entry_cong:
  "(\<And>r. queue_id (h' r) = queue_id (h r)) \<Longrightarrow> find_entry h' qid i q = find_entry h qid i q"
  by (induction q arbitrary: i) simp_all

text \<open>A removal changes nothing, or pops one slot of one queue and renumbers that queue.\<close>

lemma remove_scan_cases:
  "(fst (remove_scan qid qts s) = None \<and> snd (remove_scan qid qts s) = s)
   \<or> (\<exists>qt i. i < length (queue_of s qt)
         \<and> fst (remove_scan qid qts s) = Some (queue_of s qt ! i)
         \<and> queue_id (heap s (queue_of s qt ! i)) = qid
         \<and> snd (remove_scan qid qts s)
             = update_positions qt (set_queue qt (list_pop i (queue_of s qt)) s))"
proof (induction qts)
  case Nil
  show ?case by simp
next
  case (Cons a qts)
  show ?case
  proof (cases "find_entry (heap s) qid 0 (queue_of s a)")
    case None
    then show ?thesis using Cons.IH by simp
  next
    case (Some found)
    obtain i e where f: "found = (i, e)" by (cases found)
    from find_entry_Some [of "heap s" qid 0 "queue_of s a" i e] Some f
    have i: "i < length (queue_of s a)" and e: "queue_of s a ! i = e"
      and q: "queue_id (heap s e) = qid" by simp_all
    have "fst (remove_scan qid (a # qts) s) = Some (queue_of s a ! i)"
      and "snd (remove_scan qid (a # qts) s)
             = update_positions a (set_queue a (list_pop i (queue_of s a)) s)"
      using Some f e by simp_all
    then show ?thesis using i e q by blast
  qed
qed

lemma remove_from_queue_cases:
  "(fst (remove_from_queue qid s) = None \<and> snd (remove_from_queue qid s) = s)
   \<or> (\<exists>qt i. i < length (queue_of s qt)
         \<and> fst (remove_from_queue qid s) = Some (queue_of s qt ! i)
         \<and> queue_id (heap s (queue_of s qt ! i)) = qid
         \<and> snd (remove_from_queue qid s)
             = update_positions qt (set_queue qt (list_pop i (queue_of s qt)) s))"
  unfolding remove_from_queue_def by (rule remove_scan_cases)

lemma remove_from_queue_queue:
  "queue_of (snd (remove_from_queue qid s)) qt = queue_of s qt
   \<or> (\<exists>i < length (queue_of s qt).
         queue_of (snd (remove_from_queue qid s)) qt = list_pop i (queue_of s qt))"
proof -
  from remove_from_queue_cases [of qid s]
  show ?thesis
  proof
    assume "fst (remove_from_queue qid s) = None \<and> snd (remove_from_queue qid s) = s"
    then show ?thesis by simp
  next
    assume "\<exists>qt i. i < length (queue_of s qt)
         \<and> fst (remove_from_queue qid s) = Some (queue_of s qt ! i)
         \<and> queue_id (heap s (queue_of s qt ! i)) = qid
         \<and> snd (remove_from_queue qid s)
             = update_positions qt (set_queue qt (list_pop i (queue_of s qt)) s)"
    then obtain qt0 i where i: "i < length (queue_of s qt0)"
      and s': "snd (remove_from_queue qid s)
             = update_positions qt0 (set_queue qt0 (list_pop i (queue_of s qt0)) s)"
      by blast
    show ?thesis
    proof (cases "qt = qt0")
      case True
      then show ?thesis using i s' by auto
    next
      case False
      then show ?thesis using s' by simp
    qed
  qed
qed

lemma remove_from_queue_frame [simp]:
  "available_tables (manager (snd (remove_from_queue qid s))) = available_tables (manager s)"
  "occupied_tables (manager (snd (remove_from_queue qid s))) = occupied_tables (manager s)"
  "appointments (manager (snd (remove_from_queue qid s))) = appointments (manager s)"
  "next_ref (snd (remove_from_queue qid s)) = next_ref s"
  "priority (heap (snd (remove_from_queue qid s)) r) = priority (heap s r)"
  "queue_type (heap (snd (remove_from_queue qid s)) r) = queue_type (heap s r)"
  "queue_id (heap (snd (remove_from_queue qid s)) r) = queue_id (heap s r)"
  using remove_from_queue_cases [of qid s] by auto

subsection \<open>Calling and completing\<close>

lemma call_next_customer_snd:
  "snd (call_next_customer now qt s) =
     (case queue_of s qt of [] \<Rightarrow> s
      | r # rest \<Rightarrow> write_entry r (\<lambda>e. e\<lparr>status := CALLED, called_at := Some now\<rparr>) s)"
  by (simp add: call_next_customer_def split: list.splits)

lemma call_next_customer_frame [simp]:
  "queue_of (snd (call_next_customer now qt s)) = queue_of s"
  "manager (snd (call_next_customer now qt s)) = manager s"
  "next_ref (snd (call_next_customer now qt s)) = next_ref s"
  "priority (heap (snd (call_next_customer now qt s)) r) = priority (heap s r)"
  "queue_type (heap (snd (call_next_customer now qt s)) r) = queue_type (heap s r)"
  "queue_id (heap (snd (call_next_customer now qt s)) r) = queue_id (heap s r)"
  "current_position (heap (snd (call_next_customer now qt s)) r) = current_position (heap s r)"
  by (simp_all add: call_next_customer_snd split: list.splits)

lemma release_table_queues [simp]:
  "current_queues (release_table table qm) = current_queues qm"
  "appointments (release_table table qm) = appointments qm"
  by (simp_all add: release_table_def split: option.splits)

lemma complete_service_snd:
  "snd (complete_service now qid table s) =
     (case fst (remove_from_queue qid s) of
        None \<Rightarrow> snd (remove_from_queue qid s)
      | Some r \<Rightarrow>
          (write_entry r (\<lambda>e. e\<lparr>status := COMPLETED, completed_at := Some now\<rparr>)
             (snd (remove_from_queue qid s)))
          \<lparr>manager := release_table table (manager (snd (remove_from_queue qid s)))\<rparr>)"
  by (simp add: complete_service_def Let_def split: prod.splits option.splits)

lemma complete_service_frame [simp]:
  "queue_of (snd (complete_service now qid table s)) = queue_of (snd (remove_from_queue qid s))"
  "appointments (manager (snd (complete_service now qid table s))) = appointments (manager s)"
  "next_ref (snd (complete_service now qid table s)) = next_ref s"
  "priority (heap (snd (complete_service now qid table s)) r) = priority (heap s r)"
  "queue_type (heap (snd (complete_service now qid table s)) r) = queue_type (heap s r)"
  "queue_id (heap (snd (complete_service now qid table s)) r) = queue_id (heap s r)"
  "current_position (heap (snd (complete_service now qid table s)) r)
     = current_position (heap (snd (remove_from_queue qid s)) r)"
  by (simp_all add: complete_service_snd queue_of_def fun_eq_iff split: option.splits)

subsection \<open>Table assignment\<close>

lemma set_table_find:
  "set_table qid t q h =
     (case find_entry h qid k q of
        None \<Rightarrow> h
      | Some (i, r) \<Rightarrow> h(r := (h r)\<lparr>table_number := Some t\<rparr>))"
  by (induction q arbitrary: k) simp_all

lemma set_table_apply:
  "set_table qid t q h r = h r \<or> set_table qid t q h r = (h r)\<lparr>table_number := Some t\<rparr>"
proof (cases "find_entry h qid 0 q")
  case None
  then show ?thesis by (simp add: set_table_find [where k = 0])
next
  case (Some found)
  then show ?thesis by (cases found) (simp add: set_table_find [where k = 0])
qed

lemma set_table_changed:
  assumes "set_table qid t q h r \<noteq> h r"
  shows "r \<in> set q \<and> queue_id (h r) = qid"
proof (cases "find_entry h qid 0 q")
  case None
  then show ?thesis using assms by (simp add: set_table_find [where k = 0])
next
  case (Some found)
  obtain i e where f: "found = (i, e)" by (cases found)
  from find_entry_Some [of h qid 0 q i e] Some f
  have i: "i < length q" and e: "q ! i = e" and q: "queue_id (h e) = qid" by simp_all
  have "set_table qid t q h = h(e := (h e)\<lparr>table_number := Some t\<rparr>)"
    using Some f by (simp add: set_table_find [where k = 0])
  then have "r = e" using assms by (cases "r = e") simp_all
  then show ?thesis using i e q by auto
qed

lemma set_table_all_apply:
  "set_table_all qid t qs h r = h r \<or> set_table_all qid t qs h r = (h r)\<lparr>table_number := Some t\<rparr>"
proof (induction qs arbitrary: h)
  case Nil
  show ?case by simp
next
  case (Cons q qs)
  from Cons.IH [of "set_table qid t q h"] set_table_apply [of qid t q h r]
  show ?case by auto
qed

lemma set_table_queue_id [simp]: "queue_id (set_table qid t q h r) = queue_id (h r)"
  using set_table_apply [of qid t q h r] by auto

lemma set_table_all_changed:
  "set_table_all qid t qs h r \<noteq> h r \<Longrightarrow> (\<exists>q \<in> set qs. r \<in> set q) \<and> queue_id (h r) = qid"
proof (induction qs arbitrary: h)
  case Nil
  then show ?case by simp
next
  case (Cons q qs)
  show ?case
  proof (cases "set_table qid t q h r = h r")
    case True
    have "set_table_all qid t qs (set_table qid t q h) r \<noteq> set_table qid t q h r"
      using Cons.prems True by simp
    from Cons.IH [OF this] show ?thesis by simp
  next
    case False
    from set_table_changed [OF this] show ?thesis by simp
  qed
qed

lemma set_table_all_first:
  "q \<in> set qs \<Longrightarrow> find_entry h qid 0 q = Some (i, r)
     \<Longrightarrow> table_number (set_table_all qid t qs h r) = Some t"
proof (induction qs arbitrary: h)
  case Nil
  then show ?case by simp
next
  case (Cons a qs)
  let ?h1 = "set_table qid t a h"
  have keep: "table_number (h' r) = Some t \<Longrightarrow> table_number (set_table_all qid t qs h' r) = Some t" for h'
    using set_table_all_apply [of qid t qs h' r] by auto
  show ?case
  proof (cases "q = a")
    case True
    have "?h1 = h(r := (h r)\<lparr>table_number := Some t\<rparr>)"
      using Cons.prems(2) True by (simp add: set_table_find [where k = 0])
    then have "table_number (?h1 r) = Some t" by simp
    then show ?thesis using keep by simp
  next
    case False
    then have m: "q \<in> set qs" using Cons.prems(1) by simp
    have "find_entry ?h1 qid 0 q = find_entry h qid 0 q"
      by (rule find_entry_cong) simp
    then have "find_entry ?h1 qid 0 q = Some (i, r)" using Cons.prems(2) by simp
    from Cons.IH [OF m this] show ?thesis by simp
  qed
qed

lemma assign_table_frame [simp]:
  "queue_of (snd (assign_table qid preference s)) = queue_of s"
  "appointments (manager (snd (assign_table qid preference s))) = appointments (manager s)"
  "next_ref (snd (assign_table qid preference s)) = next_ref s"
  by (simp_all add: assign_table_def queue_of_def fun_eq_iff split: list.splits)

lemma assign_table_heap:
  "heap (snd (assign_table qid preference s)) =
     (case available_tables (manager s) of
        [] \<Rightarrow> heap s
      | t # ts \<Rightarrow> set_table_all qid t (map (queue_of s) all_queue_types) (heap s))"
  by (simp add: assign_table_def split: list.splits)

lemma assign_table_apply:
  "heap (snd (assign_table qid preference s)) r = heap s r
   \<or> (\<exists>t. heap (snd (assign_table qid preference s)) r = (heap s r)\<lparr>table_number := Some t\<rparr>)"
proof (cases "available_tables (manager s)")
  case Nil
  then show ?thesis by (simp add: assign_table_heap)
next
  case (Cons t ts)
  then show ?thesis
    using set_table_all_apply [of qid t "map (queue_of s) all_queue_types" "heap s" r]
    by (auto simp: assign_table_heap)
qed

lemma assign_table_fields [simp]:
  "priority (heap (snd (assign_table qid preference s)) r) = priority (heap s r)"
  "queue_type (heap (snd (assign_table qid preference s)) r) = queue_type (heap s r)"
  "queue_id (heap (snd (assign_table qid preference s)) r) = queue_id (heap s r)"
  "current_position (heap (snd (assign_table qid preference s)) r) = current_position (heap s r)"
  using assign_table_apply [of qid preference s r] by auto

subsection \<open>Runs\<close>

lemma apply_op_fields [simp]:
  "priority (heap (apply_op op s) r) = priority (heap s r)"
  "queue_type (heap (apply_op op s) r) = queue_type (heap s r)"
  "queue_id (heap (apply_op op s) r) = queue_id (heap s r)"
  by (cases op; simp)+

lemma run_fields [simp]:
  "priority (heap (run ops s) r) = priority (heap s r)"
  "queue_type (heap (run ops s) r) = queue_type (heap s r)"
  "queue_id (heap (run ops s) r) = queue_id (heap s r)"
  by (induction ops arbitrary: s; simp)+

lemma add_all_fields [simp]:
  "priority (heap (add_all es s) r) = priority (heap s r)"
  "queue_type (heap (add_all es s) r) = queue_type (heap s r)"
  by (induction es arbitrary: s; simp)+

section \<open>Order in every reachable state\<close>

lemma by_priority_list_pop: "by_priority h q \<Longrightarrow> by_priority h (list_pop i q)"
proof -
  assume a: "by_priority h q"
  let ?R = "\<lambda>a b. priority (h b) \<le> priority (h a)"
  have "sorted_wrt ?R (take i q @ drop i q)" using a by (simp add: by_priority_def)
  then have t: "sorted_wrt ?R (take i q)" and d: "sorted_wrt ?R (drop i q)"
    and c: "\<forall>x \<in> set (take i q). \<forall>y \<in> set (drop i q). ?R x y"
    unfolding sorted_wrt_append by blast+
  have d': "sorted_wrt ?R (drop (Suc i) q)"
    using sorted_wrt_drop [OF d, of 1] by simp
  have sub: "set (drop (Suc i) q) \<subseteq> set (drop i q)"
    by (rule set_drop_subset_set_drop) simp
  have c': "\<forall>x \<in> set (take i q). \<forall>y \<in> set (drop (Suc i) q). ?R x y"
    using c sub by blast
  show ?thesis
    unfolding by_priority_def list_pop_def sorted_wrt_append using t d' c' by blast
qed

lemma remove_from_queue_by_priority:
  assumes "by_priority (heap s) (queue_of s qt)"
  shows "by_priority (heap (snd (remove_from_queue qid s))) (queue_of (snd (remove_from_queue qid s)) qt)"
proof -
  have c: "by_priority (heap (snd (remove_from_queue qid s))) q = by_priority (heap s) q" for q
    by (rule by_priority_cong) simp
  from remove_from_queue_queue [of qid s qt] show ?thesis
    unfolding c using assms by (auto intro: by_priority_list_pop)
qed

lemma apply_op_by_priority:
  assumes "by_priority (heap s) (queue_of s qt)"
  shows "by_priority (heap (apply_op op s)) (queue_of (apply_op op s) qt)"
proof -
  have c: "by_priority (heap (apply_op op s)) q = by_priority (heap s) q" for q
    by (rule by_priority_cong) simp
  show ?thesis
  proof (cases op)
    case (Add e)
    then show ?thesis using add_to_queue_by_priority [OF assms, of e] by simp
  next
    case (Remove qid)
    then show ?thesis using remove_from_queue_by_priority [OF assms, of qid] by simp
  next
    case (Call now qt')
    then show ?thesis unfolding c using assms by simp
  next
    case (Complete now qid table)
    have "by_priority (heap s) (queue_of (snd (remove_from_queue qid s)) qt)"
      using remove_from_queue_by_priority [OF assms, of qid]
        by_priority_cong [of "heap (snd (remove_from_queue qid s))" "heap s"] by simp
    then show ?thesis unfolding c using Complete by simp
  next
    case (Assign qid preference)
    then show ?thesis unfolding c using assms by simp
  qed
qed

lemma run_by_priority:
  "by_priority (heap s) (queue_of s qt) \<Longrightarrow> by_priority (heap (run ops s)) (queue_of (run ops s) qt)"
  by (induction ops arbitrary: s) (simp_all add: apply_op_by_priority)

lemma add_all_by_priority:
  "by_priority (heap s) (queue_of s qt)
     \<Longrightarrow> by_priority (heap (add_all es s)) (queue_of (add_all es s) qt)"
  by (induction es arbitrary: s) (simp_all add: add_to_queue_by_priority)

lemma add_all_stable:
  "by_priority (heap s) (queue_of s qt) \<Longrightarrow>
   filter (\<lambda>x. priority (heap s x) = p) (queue_of (add_all es s) qt)
     = filter (\<lambda>x. priority (heap s x) = p) (queue_of s qt)
       @ filter (\<lambda>x. priority (heap s x) = p) (filter (\<lambda>x. queue_type (heap s x) = qt) es)"
proof (induction es arbitrary: s)
  case Nil
  then show ?case by simp
next
  case (Cons e es)
  let ?s1 = "snd (add_to_queue e s)"
  have b: "by_priority (heap ?s1) (queue_of ?s1 qt)"
    using Cons.prems by (rule add_to_queue_by_priority)
  have "filter (\<lambda>x. priority (heap ?s1 x) = p) (queue_of (add_all es ?s1) qt)
     = filter (\<lambda>x. priority (heap ?s1 x) = p) (queue_of ?s1 qt)
       @ filter (\<lambda>x. priority (heap ?s1 x) = p) (filter (\<lambda>x. queue_type (heap ?s1 x) = qt) es)"
    using b by (rule Cons.IH)
  then have "filter (\<lambda>x. priority (heap s x) = p) (queue_of (add_all es ?s1) qt)
     = filter (\<lambda>x. priority (heap s x) = p) (queue_of ?s1 qt)
       @ filter (\<lambda>x. priority (heap s x) = p) (filter (\<lambda>x. queue_type (heap s x) = qt) es)"
    by simp
  then show ?case
    using add_to_queue_stable [OF Cons.prems, of p e] by simp
qed

section \<open>The table pool\<close>

lemma tables_ok_cong:
  "available_tables qm' = available_tables qm \<Longrightarrow> occupied_tables qm' = occupied_tables qm
     \<Longrightarrow> tables_ok N qm' = tables_ok N qm"
  by (simp add: tables_ok_def)

lemma tables_ok_new: "tables_ok N (new_QueueManager N)"
  by (simp add: tables_ok_def new_QueueManager_def)

lemma assign_table_tables:
  "available_tables (manager (snd (assign_table qid preference s))) = tl (available_tables (manager s))"
  "occupied_tables (manager (snd (assign_table qid preference s))) =
     (case available_tables (manager s) of [] \<Rightarrow> occupied_tables (manager s)
      | t # ts \<Rightarrow> (occupied_tables (manager s))(t \<mapsto> qid))"
  by (simp_all add: assign_table_def split: list.splits)

lemma tables_ok_assign:
  assumes ok: "tables_ok N (manager s)"
  shows "tables_ok N (manager (snd (assign_table qid preference s)))"
proof (cases "available_tables (manager s)")
  case Nil
  then show ?thesis using ok by (simp add: assign_table_def)
next
  case (Cons t ts)
  from ok have d: "distinct (t # ts)" and i: "set (t # ts) \<inter> dom (occupied_tables (manager s)) = {}"
    and u: "set (t # ts) \<union> dom (occupied_tables (manager s)) = {1..N}"
    using Cons by (simp_all add: tables_ok_def)
  have "distinct ts" using d by simp
  moreover have "set ts \<inter> dom ((occupied_tables (manager s))(t \<mapsto> qid)) = {}" using d i by auto
  moreover have "set ts \<union> dom ((occupied_tables (manager s))(t \<mapsto> qid)) = {1..N}" using u by auto
  ultimately show ?thesis using Cons by (simp add: tables_ok_def assign_table_tables)
qed

lemma tables_ok_release:
  assumes ok: "tables_ok N qm"
  shows "tables_ok N (release_table table qm)"
proof (cases table)
  case None
  then show ?thesis using ok by (simp add: release_table_def)
next
  case (Some t)
  show ?thesis
  proof (cases "t \<noteq> 0 \<and> occupied_tables qm t \<noteq> None")
    case False
    then show ?thesis using ok Some by (auto simp: release_table_def)
  next
    case True
    then have t: "t \<in> dom (occupied_tables qm)" by auto
    from ok have d: "distinct (available_tables qm)"
      and i: "set (available_tables qm) \<inter> dom (occupied_tables qm) = {}"
      and u: "set (available_tables qm) \<union> dom (occupied_tables qm) = {1..N}"
      by (simp_all add: tables_ok_def)
    have n: "t \<notin> set (available_tables qm)" using i t by auto
    have r: "release_table table qm
        = qm\<lparr>available_tables := available_tables qm @ [t], occupied_tables := (occupied_tables qm)(t := None)\<rparr>"
      using True Some by (simp add: release_table_def)
    have "distinct (available_tables qm @ [t])" using d n by simp
    moreover have "set (available_tables qm @ [t]) \<inter> dom ((occupied_tables qm)(t := None)) = {}"
      using i by auto
    moreover have "set (available_tables qm @ [t]) \<union> dom ((occupied_tables qm)(t := None)) = {1..N}"
      using u t by auto
    ultimately show ?thesis unfolding r by (simp add: tables_ok_def)
  qed
qed

lemma tables_ok_complete:
  assumes ok: "tables_ok N (manager s)"
  shows "tables_ok N (manager (snd (complete_service now qid table s)))"
proof -
  have r: "tables_ok N (manager (snd (remove_from_queue qid s)))"
    using ok by (simp add: tables_ok_cong [of "manager (snd (remove_from_queue qid s))" "manager s"])
  show ?thesis
  proof (cases "fst (remove_from_queue qid s)")
    case None
    then show ?thesis using r by (simp add: complete_service_snd)
  next
    case (Some e)
    then show ?thesis using tables_ok_release [OF r, of table] by (simp add: complete_service_snd)
  qed
qed

lemma tables_ok_apply_op:
  assumes ok: "tables_ok N (manager s)"
  shows "tables_ok N (manager (apply_op op s))"
proof (cases op)
  case (Add e)
  then show ?thesis using ok by (simp add: tables_ok_cong [of "manager (snd (add_to_queue e s))" "manager s"])
next
  case (Remove qid)
  then show ?thesis using ok by (simp add: tables_ok_cong [of "manager (snd (remove_from_queue qid s))" "manager s"])
next
  case (Call now qt)
  then show ?thesis using ok by simp
next
  case (Complete now qid table)
  then show ?thesis using ok by (simp add: tables_ok_complete)
next
  case (Assign qid preference)
  then show ?thesis using ok by (simp add: tables_ok_assign)
qed

lemma tables_ok_run: "tables_ok N (manager s) \<Longrightarrow> tables_ok N (manager (run ops s))"
  by (induction ops arbitrary: s) (simp_all add: tables_ok_apply_op)

section \<open>Positions when no object stands in two slots\<close>

lemma all_positions_ok_iff:
  "all_positions_ok s \<longleftrightarrow> (\<forall>qt. positions_ok (heap s) (queue_of s qt))"
  by (simp add: all_positions_ok_def list_all_iff all_queue_types_complete)

lemma no_shared_explicit:
  "no_shared s \<longleftrightarrow>
     distinct (queue_of s WALK_IN @ queue_of s APPOINTMENT @ queue_of s DELIVERY
               @ queue_of s TAKEAWAY @ queue_of s DINE_IN)"
  by (simp add: no_shared_def queued_def all_queue_types_def)

lemma no_shared_iff:
  "no_shared s \<longleftrightarrow>
     (\<forall>qt. distinct (queue_of s qt))
     \<and> (\<forall>qt qt'. qt \<noteq> qt' \<longrightarrow> set (queue_of s qt) \<inter> set (queue_of s qt') = {})"
proof
  assume a: "no_shared s"
  then have d: "distinct (queue_of s WALK_IN @ queue_of s APPOINTMENT @ queue_of s DELIVERY
               @ queue_of s TAKEAWAY @ queue_of s DINE_IN)"
    by (simp add: no_shared_explicit)
  have 1: "distinct (queue_of s qt)" for qt
    using d by (cases qt) simp_all
  have 2: "set (queue_of s qt) \<inter> set (queue_of s qt') = {}" if "qt \<noteq> qt'" for qt qt'
    using d that by (cases qt; cases qt'; simp; blast)
  show "(\<forall>qt. distinct (queue_of s qt))
     \<and> (\<forall>qt qt'. qt \<noteq> qt' \<longrightarrow> set (queue_of s qt) \<inter> set (queue_of s qt') = {})"
    using 1 2 by blast
next
  assume a: "(\<forall>qt. distinct (queue_of s qt))
     \<and> (\<forall>qt qt'. qt \<noteq> qt' \<longrightarrow> set (queue_of s qt) \<inter> set (queue_of s qt') = {})"
  then have 1: "\<And>qt. distinct (queue_of s qt)"
    and 2: "\<And>qt qt'. qt \<noteq> qt' \<Longrightarrow> set (queue_of s qt) \<inter> set (queue_of s qt') = {}"
    by blast+
  have w: "set (queue_of s WALK_IN) \<inter> set (queue_of s APPOINTMENT) = {}"
      "set (queue_of s WALK_IN) \<inter> set (queue_of s DELIVERY) = {}"
      "set (queue_of s WALK_IN) \<inter> set (queue_of s TAKEAWAY) = {}"
      "set (queue_of s WALK_IN) \<inter> set (queue_of s DINE_IN) = {}"
      "set (queue_of s APPOINTMENT) \<inter> set (queue_of s DELIVERY) = {}"
      "set (queue_of s APPOINTMENT) \<inter> set (queue_of s TAKEAWAY) = {}"
      "set (queue_of s APPOINTMENT) \<inter> set (queue_of s DINE_IN) = {}"
      "set (queue_of s DELIVERY) \<inter> set (queue_of s TAKEAWAY) = {}"
      "set (queue_of s DELIVERY) \<inter> set (queue_of s DINE_IN) = {}"
      "set (queue_of s TAKEAWAY) \<inter> set (queue_of s DINE_IN) = {}"
    by (rule 2, simp)+
  show "no_shared s"
    unfolding no_shared_explicit distinct_append using 1 w by (simp add: Int_Un_distrib)
qed

text \<open>A state with the same queues and the same positions has the same two properties.\<close>

lemma positions_frame:
  assumes "queue_of s' = queue_of s"
    and "\<And>r. current_position (heap s' r) = current_position (heap s r)"
  shows "no_shared s' = no_shared s" and "all_positions_ok s' = all_positions_ok s"
proof -
  show "no_shared s' = no_shared s" using assms(1) by (simp add: no_shared_def queued_def)
  have "positions_ok (heap s') q = positions_ok (heap s) q" for q
    by (rule positions_ok_cong) (simp add: assms(2))
  then show "all_positions_ok s' = all_positions_ok s"
    using assms(1) by (simp add: all_positions_ok_iff)
qed

lemma distinct_insert_between:
  "distinct q \<Longrightarrow> e \<notin> set q \<Longrightarrow> distinct (takeWhile P q @ e # dropWhile P q)"
proof -
  assume d: "distinct q" and e: "e \<notin> set q"
  have "distinct (takeWhile P q @ dropWhile P q)" using d by simp
  then have a: "distinct (takeWhile P q)" and b: "distinct (dropWhile P q)"
    and c: "set (takeWhile P q) \<inter> set (dropWhile P q) = {}"
    unfolding distinct_append by blast+
  have u: "set (takeWhile P q) \<union> set (dropWhile P q) = set q"
    by (metis set_append takeWhile_dropWhile_id)
  have e1: "e \<notin> set (takeWhile P q)" and e2: "e \<notin> set (dropWhile P q)" using e u by blast+
  show ?thesis unfolding distinct_append using a b c e1 e2 by auto
qed

lemma set_insert_between: "set (takeWhile P q @ e # dropWhile P q) = insert e (set q)"
proof -
  have "set (takeWhile P q) \<union> set (dropWhile P q) = set q"
    by (metis set_append takeWhile_dropWhile_id)
  then show ?thesis by auto
qed

lemma add_to_queue_positions:
  assumes ns: "no_shared s" and ok: "all_positions_ok s" and fresh: "entry \<notin> set (queued s)"
  shows "no_shared (snd (add_to_queue entry s)) \<and> all_positions_ok (snd (add_to_queue entry s))"
proof -
  let ?s' = "snd (add_to_queue entry s)"
  let ?T = "queue_type (heap s entry)"
  let ?P = "\<lambda>x. priority (heap s entry) \<le> priority (heap s x)"
  from ns have d: "\<And>qt. distinct (queue_of s qt)"
    and dj: "\<And>qt qt'. qt \<noteq> qt' \<Longrightarrow> set (queue_of s qt) \<inter> set (queue_of s qt') = {}"
    unfolding no_shared_iff by blast+
  from fresh have fr: "\<And>qt. entry \<notin> set (queue_of s qt)" by (simp add: set_queued)
  have qT: "queue_of ?s' ?T = takeWhile ?P (queue_of s ?T) @ entry # dropWhile ?P (queue_of s ?T)"
    by (simp add: add_to_queue_queue)
  have qo: "queue_of ?s' qt = queue_of s qt" if "qt \<noteq> ?T" for qt
    using that by (simp add: add_to_queue_queue)
  have setT: "set (queue_of ?s' ?T) = insert entry (set (queue_of s ?T))"
    unfolding qT by (rule set_insert_between)
  have dT: "distinct (queue_of ?s' ?T)"
    unfolding qT using d fr by (rule distinct_insert_between)
  have d': "distinct (queue_of ?s' qt)" for qt
    using dT qo [of qt] d [of qt] by (cases "qt = ?T") simp_all
  have dj': "set (queue_of ?s' qt) \<inter> set (queue_of ?s' qt') = {}" if ne: "qt \<noteq> qt'" for qt qt'
  proof (cases "qt = ?T")
    case True
    then have o: "queue_of ?s' qt' = queue_of s qt'" using ne qo [of qt'] by simp
    show ?thesis unfolding o using True setT dj [OF ne] fr [of qt'] by auto
  next
    case False
    note nT = this
    show ?thesis
    proof (cases "qt' = ?T")
      case True
      show ?thesis using True setT qo [OF nT] dj [OF ne] fr [of qt] by auto
    next
      case False
      then show ?thesis using qo [OF nT] qo [OF False] dj [OF ne] by simp
    qed
  qed
  have ns': "no_shared ?s'" unfolding no_shared_iff using d' dj' by blast
  have pos: "positions_ok (heap ?s') (queue_of ?s' qt)" for qt
  proof (cases "qt = ?T")
    case True
    have "positions_ok (write_positions 0 (queue_of ?s' ?T)
            ((heap s)(entry := (heap s entry)\<lparr>original_position := fst (add_to_queue entry s),
                                                current_position := fst (add_to_queue entry s)\<rparr>)))
            (queue_of ?s' ?T)"
      using dT by (rule positions_ok_write_positions)
    then show ?thesis unfolding True add_to_queue_heap [symmetric] .
  next
    case False
    have old: "positions_ok (heap s) (queue_of s qt)" using ok by (simp add: all_positions_ok_iff)
    have same: "current_position (heap ?s' r) = current_position (heap s r)" if r: "r \<in> set (queue_of s qt)" for r
    proof -
      have "r \<notin> set (queue_of s ?T)" using dj [OF False] r by auto
      moreover have "r \<noteq> entry" using fr [of qt] r by auto
      ultimately have "r \<notin> set (queue_of ?s' ?T)" using setT by simp
      then show ?thesis
        unfolding add_to_queue_heap using \<open>r \<noteq> entry\<close> by (simp add: write_positions_other)
    qed
    have "positions_ok (heap ?s') (queue_of s qt) = positions_ok (heap s) (queue_of s qt)"
      by (rule positions_ok_cong) (rule same)
    then show ?thesis using old qo [OF False] by simp
  qed
  show ?thesis using ns' pos by (simp add: all_positions_ok_iff)
qed

lemma distinct_list_pop: "distinct q \<Longrightarrow> distinct (list_pop i q)"
proof -
  assume d: "distinct q"
  have "distinct (take i q @ drop i q)" using d by simp
  then have a: "distinct (take i q)" and c: "set (take i q) \<inter> set (drop i q) = {}"
    unfolding distinct_append by blast+
  have b: "distinct (drop (Suc i) q)" using d by simp
  have sub: "set (drop (Suc i) q) \<subseteq> set (drop i q)"
    by (rule set_drop_subset_set_drop) simp
  have c': "set (take i q) \<inter> set (drop (Suc i) q) = {}" using c sub by blast
  show ?thesis unfolding list_pop_def distinct_append using a b c' by blast
qed

lemma set_list_pop: "set (list_pop i q) \<subseteq> set q"
proof -
  have "set (take i q) \<subseteq> set q" by (rule set_take_subset)
  moreover have "set (drop (Suc i) q) \<subseteq> set q" by (rule set_drop_subset)
  ultimately show ?thesis by (simp add: list_pop_def)
qed

lemma remove_from_queue_positions:
  assumes ns: "no_shared s" and ok: "all_positions_ok s"
  shows "no_shared (snd (remove_from_queue qid s)) \<and> all_positions_ok (snd (remove_from_queue qid s))"
proof -
  from remove_from_queue_cases [of qid s] show ?thesis
  proof
    assume "fst (remove_from_queue qid s) = None \<and> snd (remove_from_queue qid s) = s"
    then show ?thesis using ns ok by simp
  next
    assume "\<exists>qt i. i < length (queue_of s qt)
         \<and> fst (remove_from_queue qid s) = Some (queue_of s qt ! i)
         \<and> queue_id (heap s (queue_of s qt ! i)) = qid
         \<and> snd (remove_from_queue qid s)
             = update_positions qt (set_queue qt (list_pop i (queue_of s qt)) s)"
    then obtain T i where
      s': "snd (remove_from_queue qid s) = update_positions T (set_queue T (list_pop i (queue_of s T)) s)"
      by blast
    let ?s' = "snd (remove_from_queue qid s)"
    let ?q = "list_pop i (queue_of s T)"
    from ns have d: "\<And>qt. distinct (queue_of s qt)"
      and dj: "\<And>qt qt'. qt \<noteq> qt' \<Longrightarrow> set (queue_of s qt) \<inter> set (queue_of s qt') = {}"
      unfolding no_shared_iff by blast+
    have qT: "queue_of ?s' T = ?q" unfolding s' by simp
    have qo: "queue_of ?s' qt = queue_of s qt" if "qt \<noteq> T" for qt
      unfolding s' using that by simp
    have hp: "heap ?s' = write_positions 0 ?q (heap s)" unfolding s' by simp
    have sub: "set ?q \<subseteq> set (queue_of s T)" by (rule set_list_pop)
    have dT: "distinct ?q" using d by (rule distinct_list_pop)
    have d': "distinct (queue_of ?s' qt)" for qt
      using dT qT qo [of qt] d [of qt] by (cases "qt = T") simp_all
    have dj': "set (queue_of ?s' qt) \<inter> set (queue_of ?s' qt') = {}" if ne: "qt \<noteq> qt'" for qt qt'
    proof (cases "qt = T")
      case True
      then have o: "queue_of ?s' qt' = queue_of s qt'" using ne qo [of qt'] by simp
      show ?thesis unfolding o using True qT sub dj [OF ne] by auto
    next
      case False
      note nT = this
      show ?thesis
      proof (cases "qt' = T")
        case True
        show ?thesis using True qT sub qo [OF nT] dj [OF ne] by auto
      next
        case False
        then show ?thesis using qo [OF nT] qo [OF False] dj [OF ne] by simp
      qed
    qed
    have ns': "no_shared ?s'" unfolding no_shared_iff using d' dj' by blast
    have pos: "positions_ok (heap ?s') (queue_of ?s' qt)" for qt
    proof (cases "qt = T")
      case True
      have "positions_ok (write_positions 0 ?q (heap s)) ?q"
        using dT by (rule positions_ok_write_positions)
      then show ?thesis using True qT hp by simp
    next
      case False
      have old: "positions_ok (heap s) (queue_of s qt)" using ok by (simp add: all_positions_ok_iff)
      have same: "current_position (heap ?s' r) = current_position (heap s r)"
        if r: "r \<in> set (queue_of s qt)" for r
      proof -
        have "r \<notin> set (queue_of s T)" using dj [OF False] r by auto
        then have "r \<notin> set ?q" using sub by auto
        then show ?thesis unfolding hp by (simp add: write_positions_other)
      qed
      have "positions_ok (heap ?s') (queue_of s qt) = positions_ok (heap s) (queue_of s qt)"
        by (rule positions_ok_cong) (rule same)
      then show ?thesis using old qo [OF False] by simp
    qed
    show ?thesis using ns' pos by (simp add: all_positions_ok_iff)
  qed
qed

lemma complete_service_positions:
  assumes ns: "no_shared s" and ok: "all_positions_ok s"
  shows "no_shared (snd (complete_service now qid table s))
    \<and> all_positions_ok (snd (complete_service now qid table s))"
proof -
  have "no_shared (snd (complete_service now qid table s)) = no_shared (snd (remove_from_queue qid s))"
    and "all_positions_ok (snd (complete_service now qid table s))
          = all_positions_ok (snd (remove_from_queue qid s))"
    by (rule positions_frame; simp)+
  then show ?thesis using remove_from_queue_positions [OF ns ok, of qid] by simp
qed

lemma run_positions:
  "adds_unqueued ops s \<Longrightarrow> no_shared s \<Longrightarrow> all_positions_ok s
     \<Longrightarrow> no_shared (run ops s) \<and> all_positions_ok (run ops s)"
proof (induction ops arbitrary: s)
  case Nil
  then show ?case by simp
next
  case (Cons op ops)
  have step: "no_shared (apply_op op s) \<and> all_positions_ok (apply_op op s)"
  proof (cases op)
    case (Add e)
    then have "e \<notin> set (queued s)" using Cons.prems(1) by simp
    then show ?thesis using Add add_to_queue_positions [OF Cons.prems(2,3)] by simp
  next
    case (Remove qid)
    then show ?thesis using remove_from_queue_positions [OF Cons.prems(2,3)] by simp
  next
    case (Call now qt)
    have "no_shared (snd (call_next_customer now qt s)) = no_shared s"
      and "all_positions_ok (snd (call_next_customer now qt s)) = all_positions_ok s"
      by (rule positions_frame; simp)+
    then show ?thesis using Call Cons.prems(2,3) by simp
  next
    case (Complete now qid table)
    then show ?thesis using complete_service_positions [OF Cons.prems(2,3)] by simp
  next
    case (Assign qid preference)
    have "no_shared (snd (assign_table qid preference s)) = no_shared s"
      and "all_positions_ok (snd (assign_table qid preference s)) = all_positions_ok s"
      by (rule positions_frame; simp)+
    then show ?thesis using Assign Cons.prems(2,3) by simp
  qed
  have "adds_unqueued ops (apply_op op s)" using Cons.prems(1) by simp
  from Cons.IH [OF this] step show ?case by simp
qed

section \<open>The claims\<close>

text \<open>
  C1.  \<open>add_to_queue\<close> puts the new entry immediately before the first entry of its
  queue whose priority is strictly lower, and at the end when there is none: the queue
  becomes the entries that are not lower (\<open>ahead\<close>), the new entry, and the rest
  (\<open>behind\<close>).  The value returned is the 1-based position of the new slot.  The
  entry's \<open>original_position\<close> is that value, and so is its \<open>current_position\<close>
  unless the same object already stands in a slot behind the new one; in a state that a
  run of operations reaches from a new manager it always is.  After any run of
  operations from a new manager, and so after any sequence of insertions, every queue is
  ordered by priority, higher first; and after the insertions \<open>entries\<close> the entries
  of a queue that have the same priority \<open>p\<close> stand in the order in which they
  arrived.
\<close>

theorem add_to_queue_priority_insertion:
  "(let h = heap s;
        qt = queue_type (h entry);
        ahead = takeWhile (\<lambda>x. \<not> priority (h x) < priority (h entry)) (queue_of s qt);
        behind = dropWhile (\<lambda>x. \<not> priority (h x) < priority (h entry)) (queue_of s qt);
        position = int (length ahead) + 1
    in fst (add_to_queue entry s) = position
       \<and> queue_of (snd (add_to_queue entry s)) qt = ahead @ entry # behind
       \<and> original_position (heap (snd (add_to_queue entry s)) entry) = position
       \<and> (entry \<notin> set behind \<longrightarrow>
            current_position (heap (snd (add_to_queue entry s)) entry) = position))
   \<and> current_position (heap (snd (add_to_queue entry (run ops (initial h0 N)))) entry)
       = fst (add_to_queue entry (run ops (initial h0 N)))
   \<and> by_priority (heap (run ops (initial h0 N))) (queue_of (run ops (initial h0 N)) qt')
   \<and> by_priority (heap (add_all entries (initial h0 N))) (queue_of (add_all entries (initial h0 N)) qt')
   \<and> filter (\<lambda>x. priority (h0 x) = p) (queue_of (add_all entries (initial h0 N)) qt')
       = filter (\<lambda>x. priority (h0 x) = p) (filter (\<lambda>x. queue_type (h0 x) = qt') entries)"
proof -
  have step: "fst (add_to_queue e t) = int (length (takeWhile (\<lambda>x. \<not> priority (heap t x) < priority (heap t e))
                    (queue_of t (queue_type (heap t e))))) + 1
      \<and> queue_of (snd (add_to_queue e t)) (queue_type (heap t e))
          = takeWhile (\<lambda>x. \<not> priority (heap t x) < priority (heap t e)) (queue_of t (queue_type (heap t e)))
            @ e # dropWhile (\<lambda>x. \<not> priority (heap t x) < priority (heap t e)) (queue_of t (queue_type (heap t e)))
      \<and> original_position (heap (snd (add_to_queue e t)) e)
          = int (length (takeWhile (\<lambda>x. \<not> priority (heap t x) < priority (heap t e))
                    (queue_of t (queue_type (heap t e))))) + 1
      \<and> (e \<notin> set (dropWhile (\<lambda>x. \<not> priority (heap t x) < priority (heap t e))
                      (queue_of t (queue_type (heap t e))))
           \<longrightarrow> current_position (heap (snd (add_to_queue e t)) e)
               = int (length (takeWhile (\<lambda>x. \<not> priority (heap t x) < priority (heap t e))
                    (queue_of t (queue_type (heap t e))))) + 1)"
    for e t
  proof -
    let ?P = "\<lambda>x. \<not> priority (heap t x) < priority (heap t e)"
    let ?q = "queue_of t (queue_type (heap t e))"
    have P: "?P = (\<lambda>x. priority (heap t e) \<le> priority (heap t x))" by (simp add: not_less)
    have pos: "fst (add_to_queue e t) = int (length (takeWhile ?P ?q)) + 1"
      unfolding P by (rule add_to_queue_fst)
    have new: "queue_of (snd (add_to_queue e t)) (queue_type (heap t e))
        = takeWhile ?P ?q @ e # dropWhile ?P ?q"
      unfolding P by (simp add: add_to_queue_queue)
    have orig: "original_position (heap (snd (add_to_queue e t)) e) = fst (add_to_queue e t)"
      by (simp add: add_to_queue_heap)
    have cur: "current_position (heap (snd (add_to_queue e t)) e) = fst (add_to_queue e t)"
      if "e \<notin> set (dropWhile ?P ?q)"
    proof -
      have "current_position (write_positions 0 (takeWhile ?P ?q @ e # dropWhile ?P ?q)
              ((heap t)(e := (heap t e)\<lparr>original_position := fst (add_to_queue e t),
                                         current_position := fst (add_to_queue e t)\<rparr>)) e)
          = int (0 + length (takeWhile ?P ?q)) + 1"
        using that by (rule write_positions_last)
      then show ?thesis
        unfolding add_to_queue_heap new using pos by simp
    qed
    have orig': "original_position (heap (snd (add_to_queue e t)) e) = int (length (takeWhile ?P ?q)) + 1"
      using orig pos by simp
    have cur': "current_position (heap (snd (add_to_queue e t)) e) = int (length (takeWhile ?P ?q)) + 1"
      if "e \<notin> set (dropWhile ?P ?q)"
      using cur [OF that] pos by simp
    show ?thesis using pos new orig' cur' by blast
  qed
  let ?r = "run ops (initial h0 N)"
  have empty: "by_priority (heap (initial h0 N)) (queue_of (initial h0 N) qt')"
    by (simp add: by_priority_def)
  have sorted_r: "by_priority (heap ?r) (queue_of ?r qt)" for qt
    by (rule run_by_priority) (simp add: by_priority_def)
  have "entry \<notin> set (dropWhile (\<lambda>x. \<not> priority (heap ?r x) < priority (heap ?r entry))
                      (queue_of ?r (queue_type (heap ?r entry))))"
  proof
    assume "entry \<in> set (dropWhile (\<lambda>x. \<not> priority (heap ?r x) < priority (heap ?r entry))
                      (queue_of ?r (queue_type (heap ?r entry))))"
    then have "entry \<in> set (dropWhile (\<lambda>x. priority (heap ?r entry) \<le> priority (heap ?r x))
                      (queue_of ?r (queue_type (heap ?r entry))))"
      by (simp add: not_less)
    from dropWhile_lower [OF sorted_r this] show False by simp
  qed
  then have "current_position (heap (snd (add_to_queue entry ?r)) entry)
      = int (length (takeWhile (\<lambda>x. \<not> priority (heap ?r x) < priority (heap ?r entry))
                    (queue_of ?r (queue_type (heap ?r entry))))) + 1"
    using step [of entry ?r] by blast
  moreover have "fst (add_to_queue entry ?r)
      = int (length (takeWhile (\<lambda>x. \<not> priority (heap ?r x) < priority (heap ?r entry))
                    (queue_of ?r (queue_type (heap ?r entry))))) + 1"
    using step [of entry ?r] by blast
  ultimately have reach: "current_position (heap (snd (add_to_queue entry ?r)) entry)
      = fst (add_to_queue entry ?r)"
    by simp
  have stable: "filter (\<lambda>x. priority (h0 x) = p) (queue_of (add_all entries (initial h0 N)) qt')
       = filter (\<lambda>x. priority (h0 x) = p) (filter (\<lambda>x. queue_type (h0 x) = qt') entries)"
    using add_all_stable [OF empty, of p entries] by simp
  show ?thesis
    unfolding Let_def
    using step [of entry s] reach sorted_r [of qt'] add_all_by_priority [OF empty, of entries] stable
    by blast
qed

theorem add_to_queue_priority_insertion_witness:
  "fst (add_to_queue 2 (add_all [0, 1] (initial sample_heap 20))) = 1
   \<and> queue_of (add_all [0, 1, 2] (initial sample_heap 20)) WALK_IN = [2, 0, 1]
   \<and> map (\<lambda>r. priority (sample_heap r)) [2, 0, 1] = [5, 0, 0]
   \<and> map (\<lambda>r. current_position (heap (add_all [0, 1, 2] (initial sample_heap 20)) r)) [2, 0, 1] = [1, 2, 3]
   \<and> by_priority (heap (add_all [0, 1, 2] (initial sample_heap 20)))
        (queue_of (add_all [0, 1, 2] (initial sample_heap 20)) WALK_IN)"
proof -
  have a: "fst (add_to_queue 2 (add_all [0, 1] (initial sample_heap 20))) = 1" by code_simp
  have b: "queue_of (add_all [0, 1, 2] (initial sample_heap 20)) WALK_IN = [2, 0, 1]" by code_simp
  have c: "map (\<lambda>r. priority (sample_heap r)) [2, 0, 1] = [5, 0, 0]" by code_simp
  have d: "map (\<lambda>r. current_position (heap (add_all [0, 1, 2] (initial sample_heap 20)) r)) [2, 0, 1] = [1, 2, 3]"
    by code_simp
  from add_to_queue_priority_insertion [of "initial sample_heap 20" 0 "[]" sample_heap 20 WALK_IN "[0, 1, 2]" 0]
  have "by_priority (heap (add_all [0, 1, 2] (initial sample_heap 20)))
        (queue_of (add_all [0, 1, 2] (initial sample_heap 20)) WALK_IN)"
    by blast
  then show ?thesis using a b c d by blast
qed

text \<open>
  C6.  In every state that a run of the manager's operations (\<open>add_to_queue\<close>,
  \<open>remove_from_queue\<close>, \<open>call_next_customer\<close>, \<open>complete_service\<close>,
  \<open>assign_table\<close>) reaches from a manager with tables \<open>1..N\<close>, the pool of
  available tables and the keys of the occupied map are disjoint, their union is
  \<open>{1..N}\<close>, no table is in the pool twice, and the same holds after one more
  operation.
\<close>

theorem table_pool_invariant:
  "set (available_tables (manager (run ops (initial h N))))
       \<inter> dom (occupied_tables (manager (run ops (initial h N)))) = {}
   \<and> set (available_tables (manager (run ops (initial h N))))
       \<union> dom (occupied_tables (manager (run ops (initial h N)))) = {1..N}
   \<and> distinct (available_tables (manager (run ops (initial h N))))
   \<and> tables_ok N (manager (apply_op op (run ops (initial h N))))"
proof -
  have "tables_ok N (manager (initial h N))" by (simp add: tables_ok_new)
  then have a: "tables_ok N (manager (run ops (initial h N)))" by (rule tables_ok_run)
  then have b: "tables_ok N (manager (apply_op op (run ops (initial h N))))"
    by (rule tables_ok_apply_op)
  show ?thesis using a b by (simp add: tables_ok_def)
qed

theorem table_pool_invariant_witness:
  "available_tables (manager (run [Add 3, Assign ''a'' None, Assign ''b'' None,
                                   Complete 5 ''a'' (Some 1)] (initial sample_heap 3))) = [3, 1]
   \<and> occupied_tables (manager (run [Add 3, Assign ''a'' None, Assign ''b'' None,
                                   Complete 5 ''a'' (Some 1)] (initial sample_heap 3))) 2 = Some ''b''
   \<and> set (available_tables (manager (run [Add 3, Assign ''a'' None, Assign ''b'' None,
                                   Complete 5 ''a'' (Some 1)] (initial sample_heap 3))))
       \<inter> dom (occupied_tables (manager (run [Add 3, Assign ''a'' None, Assign ''b'' None,
                                   Complete 5 ''a'' (Some 1)] (initial sample_heap 3)))) = {}
   \<and> set (available_tables (manager (run [Add 3, Assign ''a'' None, Assign ''b'' None,
                                   Complete 5 ''a'' (Some 1)] (initial sample_heap 3))))
       \<union> dom (occupied_tables (manager (run [Add 3, Assign ''a'' None, Assign ''b'' None,
                                   Complete 5 ''a'' (Some 1)] (initial sample_heap 3)))) = {1..3}"
proof -
  let ?s = "run [Add 3, Assign ''a'' None, Assign ''b'' None, Complete 5 ''a'' (Some 1)]
              (initial sample_heap 3)"
  have a: "available_tables (manager ?s) = [3, 1]" by code_simp
  have b: "occupied_tables (manager ?s) 2 = Some ''b''" by code_simp
  from table_pool_invariant
    [of "[Add 3, Assign ''a'' None, Assign ''b'' None, Complete 5 ''a'' (Some 1)]"
        sample_heap 3 "Assign ''c'' None"]
  have "set (available_tables (manager ?s)) \<inter> dom (occupied_tables (manager ?s)) = {}"
    and "set (available_tables (manager ?s)) \<union> dom (occupied_tables (manager ?s)) = {1..3}"
    by blast+
  then show ?thesis using a b by blast
qed

text \<open>
  C2.  \<open>_update_positions\<close> writes index plus one into the object of every slot of one
  queue, so what the positions are afterwards depends on which objects the slots hold.
  Let no object stand in two slots (of one queue or of two) and let every
  \<open>current_position\<close> be the 1-based index of its slot.  Then this is so again after
  \<open>remove_from_queue\<close>, after \<open>complete_service\<close>, and after \<open>add_to_queue\<close> of an
  object that is in no queue at the time of the call.  It holds in every state that a
  run of manager operations reaches from a new manager, when every \<open>add_to_queue\<close> of
  the run is given an object that is in no queue.
\<close>

theorem current_position_is_index:
  assumes "no_shared s" and "all_positions_ok s"
  shows "(entry \<notin> set (queued s) \<longrightarrow>
            no_shared (snd (add_to_queue entry s))
            \<and> (\<forall>qt i. i < length (queue_of (snd (add_to_queue entry s)) qt) \<longrightarrow>
                  current_position (heap (snd (add_to_queue entry s))
                                     (queue_of (snd (add_to_queue entry s)) qt ! i)) = int i + 1))
         \<and> no_shared (snd (remove_from_queue qid s))
         \<and> (\<forall>qt i. i < length (queue_of (snd (remove_from_queue qid s)) qt) \<longrightarrow>
               current_position (heap (snd (remove_from_queue qid s))
                                  (queue_of (snd (remove_from_queue qid s)) qt ! i)) = int i + 1)
         \<and> no_shared (snd (complete_service now qid table s))
         \<and> (\<forall>qt i. i < length (queue_of (snd (complete_service now qid table s)) qt) \<longrightarrow>
               current_position (heap (snd (complete_service now qid table s))
                                  (queue_of (snd (complete_service now qid table s)) qt ! i)) = int i + 1)
         \<and> (adds_unqueued ops (initial h0 N) \<longrightarrow>
               no_shared (run ops (initial h0 N))
               \<and> (\<forall>qt i. i < length (queue_of (run ops (initial h0 N)) qt) \<longrightarrow>
                     current_position (heap (run ops (initial h0 N))
                                        (queue_of (run ops (initial h0 N)) qt ! i)) = int i + 1))"
proof -
  have index: "\<forall>qt i. i < length (queue_of t qt) \<longrightarrow>
                 current_position (heap t (queue_of t qt ! i)) = int i + 1"
    if "all_positions_ok t" for t
    using that unfolding all_positions_ok_iff positions_ok_nth by blast
  have add: "no_shared (snd (add_to_queue entry s))
      \<and> (\<forall>qt i. i < length (queue_of (snd (add_to_queue entry s)) qt) \<longrightarrow>
            current_position (heap (snd (add_to_queue entry s))
                               (queue_of (snd (add_to_queue entry s)) qt ! i)) = int i + 1)"
    if "entry \<notin> set (queued s)"
    using add_to_queue_positions [OF assms that] index by blast
  have remove: "no_shared (snd (remove_from_queue qid s))
      \<and> (\<forall>qt i. i < length (queue_of (snd (remove_from_queue qid s)) qt) \<longrightarrow>
            current_position (heap (snd (remove_from_queue qid s))
                               (queue_of (snd (remove_from_queue qid s)) qt ! i)) = int i + 1)"
    using remove_from_queue_positions [OF assms, of qid] index by blast
  have complete: "no_shared (snd (complete_service now qid table s))
      \<and> (\<forall>qt i. i < length (queue_of (snd (complete_service now qid table s)) qt) \<longrightarrow>
            current_position (heap (snd (complete_service now qid table s))
                               (queue_of (snd (complete_service now qid table s)) qt ! i)) = int i + 1)"
    using complete_service_positions [OF assms, of now qid table] index by blast
  have start: "no_shared (initial h0 N)" "all_positions_ok (initial h0 N)"
    by (simp_all add: no_shared_iff all_positions_ok_iff positions_ok_def)
  have reach: "no_shared (run ops (initial h0 N))
      \<and> (\<forall>qt i. i < length (queue_of (run ops (initial h0 N)) qt) \<longrightarrow>
            current_position (heap (run ops (initial h0 N))
                               (queue_of (run ops (initial h0 N)) qt ! i)) = int i + 1)"
    if "adds_unqueued ops (initial h0 N)"
    using run_positions [OF that start] index by blast
  show ?thesis using add remove complete reach by blast
qed

theorem current_position_is_index_witness:
  "no_shared (add_all [0, 1] (initial sample_heap 20))
   \<and> all_positions_ok (add_all [0, 1] (initial sample_heap 20))
   \<and> 2 \<notin> set (queued (add_all [0, 1] (initial sample_heap 20)))
   \<and> queue_of (snd (add_to_queue 2 (add_all [0, 1] (initial sample_heap 20)))) WALK_IN = [2, 0, 1]
   \<and> current_position (heap (snd (add_to_queue 2 (add_all [0, 1] (initial sample_heap 20))))
        (queue_of (snd (add_to_queue 2 (add_all [0, 1] (initial sample_heap 20)))) WALK_IN ! 1)) = 2
   \<and> queue_of (snd (remove_from_queue ''first'' (add_all [0, 1] (initial sample_heap 20)))) WALK_IN = [1]
   \<and> current_position (heap (snd (remove_from_queue ''first'' (add_all [0, 1] (initial sample_heap 20))))
        (queue_of (snd (remove_from_queue ''first'' (add_all [0, 1] (initial sample_heap 20)))) WALK_IN ! 0)) = 1
   \<and> adds_unqueued [Add 0, Add 1, Remove ''first'', Add 0] (initial sample_heap 20)
   \<and> queue_of (run [Add 0, Add 1, Remove ''first'', Add 0] (initial sample_heap 20)) WALK_IN = [1, 0]
   \<and> current_position (heap (run [Add 0, Add 1, Remove ''first'', Add 0] (initial sample_heap 20))
        (queue_of (run [Add 0, Add 1, Remove ''first'', Add 0] (initial sample_heap 20)) WALK_IN ! 1)) = 2"
proof -
  let ?s = "add_all [0, 1] (initial sample_heap 20)"
  let ?ops = "[Add 0, Add 1, Remove ''first'', Add 0]"
  have h1: "no_shared ?s" by code_simp
  have h2: "all_positions_ok ?s" by code_simp
  have h3: "2 \<notin> set (queued ?s)" by code_simp
  have h4: "adds_unqueued ?ops (initial sample_heap 20)" by code_simp
  have q1: "queue_of (snd (add_to_queue 2 ?s)) WALK_IN = [2, 0, 1]" by code_simp
  have q2: "queue_of (snd (remove_from_queue ''first'' ?s)) WALK_IN = [1]" by code_simp
  have q3: "queue_of (run ?ops (initial sample_heap 20)) WALK_IN = [1, 0]" by code_simp
  have l1: "(1::nat) < length (queue_of (snd (add_to_queue 2 ?s)) WALK_IN)" unfolding q1 by simp
  have l2: "(0::nat) < length (queue_of (snd (remove_from_queue ''first'' ?s)) WALK_IN)"
    unfolding q2 by simp
  have l3: "(1::nat) < length (queue_of (run ?ops (initial sample_heap 20)) WALK_IN)"
    unfolding q3 by simp
  note t = current_position_is_index [OF h1 h2, of 2 "''first''" 0 None ?ops sample_heap 20]
  have c1: "current_position (heap (snd (add_to_queue 2 ?s))
              (queue_of (snd (add_to_queue 2 ?s)) WALK_IN ! 1)) = int 1 + 1"
    using t h3 l1 by blast
  have c2: "current_position (heap (snd (remove_from_queue ''first'' ?s))
              (queue_of (snd (remove_from_queue ''first'' ?s)) WALK_IN ! 0)) = int 0 + 1"
    using t l2 by blast
  have c3: "current_position (heap (run ?ops (initial sample_heap 20))
              (queue_of (run ?ops (initial sample_heap 20)) WALK_IN ! 1)) = int 1 + 1"
    using t h4 l3 by blast
  have c1': "current_position (heap (snd (add_to_queue 2 ?s))
              (queue_of (snd (add_to_queue 2 ?s)) WALK_IN ! 1)) = 2"
    using c1 by simp
  have c2': "current_position (heap (snd (remove_from_queue ''first'' ?s))
              (queue_of (snd (remove_from_queue ''first'' ?s)) WALK_IN ! 0)) = 1"
    using c2 by simp
  have c3': "current_position (heap (run ?ops (initial sample_heap 20))
              (queue_of (run ?ops (initial sample_heap 20)) WALK_IN ! 1)) = 2"
    using c3 by simp
  show ?thesis using h1 h2 h3 h4 q1 q2 q3 c1' c2' c3' by blast
qed

theorem current_position_not_index:
  "queue_of (snd (add_to_queue 0 (snd (add_to_queue 0 (initial sample_heap 20))))) WALK_IN = [0, 0]
   \<and> current_position (heap (snd (add_to_queue 0 (snd (add_to_queue 0 (initial sample_heap 20)))))
        (queue_of (snd (add_to_queue 0 (snd (add_to_queue 0 (initial sample_heap 20))))) WALK_IN ! 0)) = 2
   \<and> \<not> all_positions_ok (snd (add_to_queue 0 (snd (add_to_queue 0 (initial sample_heap 20)))))"
proof -
  have a: "queue_of (snd (add_to_queue 0 (snd (add_to_queue 0 (initial sample_heap 20))))) WALK_IN = [0, 0]"
    by code_simp
  have b: "current_position (heap (snd (add_to_queue 0 (snd (add_to_queue 0 (initial sample_heap 20)))))
        (queue_of (snd (add_to_queue 0 (snd (add_to_queue 0 (initial sample_heap 20))))) WALK_IN ! 0)) = 2"
    by code_simp
  have c: "\<not> all_positions_ok (snd (add_to_queue 0 (snd (add_to_queue 0 (initial sample_heap 20)))))"
    by code_simp
  show ?thesis using a b c by blast
qed

end
